theory Spec2Isabelle
  imports Complex_Main "HOL-Library.Sublist"
begin

section \<open>Strings\<close>

text \<open>
  Python strings are modelled as \<^typ>\<open>string\<close>, a list of 8-bit characters, and the commands
  are taken to be ASCII text. The floats \<open>G_L\<close>, \<open>C_self\<close> and the garden weights are modelled
  as exact reals; console output (\<open>print\<close>) is not part of the model.
\<close>

definition upper_letters :: string where
  "upper_letters = ''ABCDEFGHIJKLMNOPQRSTUVWXYZ''"

definition lower_letters :: string where
  "lower_letters = ''abcdefghijklmnopqrstuvwxyz''"

definition lower_char :: "char \<Rightarrow> char" where
  "lower_char c = (case map_of (zip upper_letters lower_letters) c of Some d \<Rightarrow> d | None \<Rightarrow> c)"

text \<open>\<open>str.lower()\<close> on ASCII text.\<close>

definition lower :: "string \<Rightarrow> string" where
  "lower s = map lower_char s"

text \<open>The ASCII characters for which \<open>str.isspace()\<close> holds.\<close>

definition is_space :: "char \<Rightarrow> bool" where
  "is_space c = (c \<in> set [CHR 0x09, CHR 0x0A, CHR 0x0B, CHR 0x0C, CHR 0x0D,
                           CHR 0x1C, CHR 0x1D, CHR 0x1E, CHR 0x1F, CHR 0x20])"

text \<open>\<open>str.strip()\<close>: leading and trailing whitespace removed.\<close>

definition strip :: "string \<Rightarrow> string" where
  "strip s = rev (dropWhile is_space (rev (dropWhile is_space s)))"

text \<open>\<open>k in s\<close> on strings: \<open>k\<close> occurs in \<open>s\<close> as a contiguous substring.\<close>

fun contains :: "string \<Rightarrow> string \<Rightarrow> bool" where
  "contains k [] = (k = [])"
| "contains k (c # cs) = (prefix k (c # cs) \<or> contains k cs)"

text \<open>
  \<open>s.replace(old, new)\<close>: every non-overlapping occurrence of \<open>old\<close>, found in one scan from
  the left, is replaced; the scan goes on after the occurrence, never inside the text it wrote.
  With an empty \<open>old\<close>, \<open>new\<close> is put before every character and at the end.
\<close>

function replace :: "string \<Rightarrow> string \<Rightarrow> string \<Rightarrow> string" where
  "replace old new [] = (if old = [] then new else [])"
| "replace old new (c # cs) =
     (if old = [] then new @ c # replace old new cs
      else if prefix old (c # cs) then new @ replace old new (drop (length old) (c # cs))
      else c # replace old new cs)"
  by pat_completeness auto
termination
  by (relation "measure (\<lambda>(old, new, s). length s)") auto

text \<open>\<open>s.split()\<close>: the maximal runs of non-whitespace characters.\<close>

function split_ws :: "string \<Rightarrow> string list" where
  "split_ws s =
     (case dropWhile is_space s of
        [] \<Rightarrow> []
      | c # cs \<Rightarrow> takeWhile (\<lambda>x. \<not> is_space x) (c # cs)
                 # split_ws (dropWhile (\<lambda>x. \<not> is_space x) (c # cs)))"
  by pat_completeness auto
termination
proof (relation "measure length", goal_cases)
  case 1
  show ?case by simp
next
  case (2 s c cs)
  have eq: "dropWhile is_space s = c # cs" using 2 by simp
  have nsp: "\<not> is_space c"
    using hd_dropWhile [of is_space s] eq by simp
  have "length (dropWhile (\<lambda>x. \<not> is_space x) (c # cs)) = length (dropWhile (\<lambda>x. \<not> is_space x) cs)"
    using nsp by simp
  also have "\<dots> \<le> length cs" by (rule length_dropWhile_le)
  also have "\<dots> < length (dropWhile is_space s)" using eq by simp
  also have "\<dots> \<le> length s" by (rule length_dropWhile_le)
  finally show ?case by simp
qed

declare split_ws.simps [simp del]

text \<open>
  \<open>s.split(sep)\<close> for a non-empty separator: \<open>acc\<close> is the piece read so far. (Python raises
  ValueError for an empty separator; the source only splits on \<open>'. '\<close>.)
\<close>

function split_on :: "string \<Rightarrow> string \<Rightarrow> string \<Rightarrow> string list" where
  "split_on sep acc [] = [acc]"
| "split_on sep acc (c # cs) =
     (if sep \<noteq> [] \<and> prefix sep (c # cs)
      then acc # split_on sep [] (drop (length sep) (c # cs))
      else split_on sep (acc @ [c]) cs)"
  by pat_completeness auto
termination
  by (relation "measure (\<lambda>(sep, acc, s). length s)") auto

definition split_sep :: "string \<Rightarrow> string \<Rightarrow> string list" where
  "split_sep sep s = split_on sep [] s"

text \<open>\<open>sep.join(xs)\<close>.\<close>

fun join :: "string \<Rightarrow> string list \<Rightarrow> string" where
  "join sep [] = []"
| "join sep [x] = x"
| "join sep (x # y # ys) = x @ sep @ join sep (y # ys)"

text \<open>\<open>str(n)\<close> for a non-negative integer.\<close>

definition digit_char :: "nat \<Rightarrow> char" where
  "digit_char d = ''0123456789'' ! d"

function str_nat :: "nat \<Rightarrow> string" where
  "str_nat n = (if n < 10 then [digit_char n] else str_nat (n div 10) @ [digit_char (n mod 10)])"
  by pat_completeness auto
termination
  by (relation "measure id") auto

declare str_nat.simps [simp del]

text \<open>
  \<open>random.choice(xs)\<close> on a non-empty list: the random source is the argument \<open>r\<close>, and the
  element at index \<open>r mod len(xs)\<close> is chosen, so every element can be drawn.
\<close>

definition random_choice :: "nat \<Rightarrow> 'a list \<Rightarrow> 'a" where
  "random_choice r xs = xs ! (r mod length xs)"

definition quote :: string where
  "quote = [CHR 0x27]"

text \<open>The arrow U+2192 of the source's literals, as its UTF-8 bytes.\<close>

definition arrow :: string where
  "arrow = [CHR 0xE2, CHR 0x86, CHR 0x92]"

section \<open>The garden layer\<close>

text \<open>
  \<open>axiom_tree\<close> is a \<open>defaultdict(list)\<close>: an association list in key insertion order, as
  Python dicts keep it. \<open>weights\<close> is a plain dict, whose order nothing observes.
\<close>

record garden =
  axiom_tree :: "(string \<times> string list) list"
  weights :: "string \<rightharpoonup> real"

definition garden_init :: garden where
  "garden_init = \<lparr>axiom_tree = [], weights = Map.empty\<rparr>"

text \<open>\<open>self.axiom_tree[old].append(new)\<close>: a missing key is added at the end.\<close>

fun tree_append :: "(string \<times> string list) list \<Rightarrow> string \<Rightarrow> string \<Rightarrow> (string \<times> string list) list" where
  "tree_append [] old new = [(old, [new])]"
| "tree_append ((k, cs) # t) old new =
     (if k = old then (k, cs @ [new]) # t else (k, cs) # tree_append t old new)"

definition evolve :: "string \<Rightarrow> string \<Rightarrow> garden \<Rightarrow> garden" where
  "evolve old new g =
     g\<lparr>axiom_tree := tree_append (axiom_tree g) old new,
       weights := (weights g)(new \<mapsto> (case weights g new of None \<Rightarrow> 0.5 | Some w \<Rightarrow> w) + 0.15)\<rparr>"

text \<open>\<open>max(xs, key=key)\<close> on a non-empty list: a later element wins only if strictly greater.\<close>

fun max_by :: "('a \<Rightarrow> real) \<Rightarrow> 'a \<Rightarrow> 'a list \<Rightarrow> 'a" where
  "max_by key best [] = best"
| "max_by key best (x # xs) = max_by key (if key x > key best then x else best) xs"

text \<open>\<open>self.weights.get(x, 0)\<close>.\<close>

definition weight_of :: "garden \<Rightarrow> string \<Rightarrow> real" where
  "weight_of g x = (case weights g x of None \<Rightarrow> 0 | Some w \<Rightarrow> w)"

text \<open>\<open>self.axiom_tree.get(current, [])\<close>: \<open>get\<close> adds no key.\<close>

definition targets_of :: "garden \<Rightarrow> string \<Rightarrow> string list" where
  "targets_of g current = (case map_of (axiom_tree g) current of None \<Rightarrow> [] | Some cs \<Rightarrow> cs)"

definition suggest :: "garden \<Rightarrow> string \<Rightarrow> string option" where
  "suggest g current =
     (case targets_of g current of
        [] \<Rightarrow> None
      | x # xs \<Rightarrow> Some (max_by (weight_of g) x xs))"

definition prune :: "real \<Rightarrow> garden \<Rightarrow> garden" where
  "prune threshold g =
     g\<lparr>weights := (\<lambda>k. case weights g k of
                          None \<Rightarrow> None
                        | Some v \<Rightarrow> if v < threshold then None else Some v)\<rparr>"

datatype error = RuntimeError | TypeError

text \<open>
  A call of \<open>evolve\<close> with keyword arguments: \<open>evolve(self, old, new)\<close> accepts the names
  \<open>old\<close> and \<open>new\<close>; any other keyword, or a parameter left without a value, raises
  \<open>TypeError\<close> before the body runs.
\<close>

definition evolve_kwargs :: "(string \<times> string) list \<Rightarrow> garden \<Rightarrow> error + garden" where
  "evolve_kwargs kwargs g =
     (if list_ex (\<lambda>(name, _). name \<noteq> ''old'' \<and> name \<noteq> ''new'') kwargs then Inl TypeError
      else case (map_of kwargs ''old'', map_of kwargs ''new'') of
             (Some old, Some new) \<Rightarrow> Inr (evolve old new g)
           | _ \<Rightarrow> Inl TypeError)"

type_synonym tree = "(string \<times> string list) list"

text \<open>
  \<open>self.axiom_tree[n]\<close>: the item access of a \<open>defaultdict(list)\<close> stores an empty list under a
  missing key and returns it.
\<close>

definition tree_getitem :: "tree \<Rightarrow> string \<Rightarrow> string list \<times> tree" where
  "tree_getitem t n = (case map_of t n of Some cs \<Rightarrow> (cs, t) | None \<Rightarrow> ([], t @ [(n, [])]))"

text \<open>\<open>max(xs, default=dflt)\<close>.\<close>

definition max_default :: "nat list \<Rightarrow> nat \<Rightarrow> nat" where
  "max_default xs dflt = (case xs of [] \<Rightarrow> dflt | y # ys \<Rightarrow> fold max ys y)"

definition tree_nodes :: "tree \<Rightarrow> string set" where
  "tree_nodes t = set (map fst t) \<union> set (concat (map snd t))"

text \<open>
  The inner function \<open>d(n, v)\<close> of \<open>depth\<close>, with the dict passed through, since every item
  access may add a key; \<open>d_children\<close> is the generator \<open>(d(c, v | {n}) for c in ...)\<close>, drawn
  from left to right.
\<close>

function d :: "tree \<Rightarrow> string \<Rightarrow> string set \<Rightarrow> nat \<times> tree"
  and d_children :: "tree \<Rightarrow> string list \<Rightarrow> string set \<Rightarrow> nat list \<times> tree"
where
  "d t n v =
     (if n \<in> v then (0, t)
      else (case tree_getitem t n of (cs, t1) \<Rightarrow>
              (case d_children t1 cs (v \<union> {n}) of (rs, t2) \<Rightarrow> (1 + max_default rs 0, t2))))"
| "d_children t [] v = ([], t)"
| "d_children t (c # cs) v =
     (case d t c v of (r, t1) \<Rightarrow>
        (case d_children t1 cs v of (rs, t2) \<Rightarrow> (r # rs, t2)))"
  by pat_completeness auto

text \<open>
  Termination: the nodes of the dict that are not on the current path get fewer with every
  level, and the calls leave the set of nodes as it is, up to the node they are called on.
\<close>

lemma finite_tree_nodes: "finite (tree_nodes t)"
  by (simp add: tree_nodes_def)

lemma tree_nodes_snoc: "tree_nodes (t @ [(n, [])]) = tree_nodes t \<union> {n}"
  by (auto simp: tree_nodes_def)

lemma tree_getitem_nodes:
  assumes "tree_getitem t n = (cs, t1)"
  shows "tree_nodes t1 = tree_nodes t \<union> {n}" and "set cs \<subseteq> tree_nodes t"
proof -
  show "tree_nodes t1 = tree_nodes t \<union> {n}"
  proof (cases "map_of t n")
    case None
    then show ?thesis using assms by (auto simp: tree_getitem_def tree_nodes_snoc)
  next
    case (Some a)
    then have "n \<in> set (map fst t)" by (metis map_of_SomeD image_eqI fst_conv set_map)
    then show ?thesis using assms Some by (auto simp: tree_getitem_def tree_nodes_def)
  qed
  show "set cs \<subseteq> tree_nodes t"
  proof (cases "map_of t n")
    case None
    then show ?thesis using assms by (auto simp: tree_getitem_def)
  next
    case (Some a)
    then have "(n, a) \<in> set t" by (rule map_of_SomeD)
    then show ?thesis using assms Some by (force simp: tree_getitem_def tree_nodes_def)
  qed
qed

lemma d_nodes_partial:
  "d_d_children_dom (Inl (t, n, v)) \<Longrightarrow> tree_nodes (snd (d t n v)) \<subseteq> tree_nodes t \<union> {n}"
  "d_d_children_dom (Inr (t, cs, v)) \<Longrightarrow>
     tree_nodes (snd (d_children t cs v)) \<subseteq> tree_nodes t \<union> set cs"
proof (induction t n v and t cs v rule: d_d_children.pinduct)
  case (1 t n v)
  show ?case
  proof (cases "n \<in> v")
    case True
    then show ?thesis using 1(1) by (auto simp: d.psimps)
  next
    case False
    obtain cs t1 where g: "tree_getitem t n = (cs, t1)" by (cases "tree_getitem t n")
    obtain rs t2 where c: "d_children t1 cs (v \<union> {n}) = (rs, t2)"
      by (cases "d_children t1 cs (v \<union> {n})")
    have "tree_nodes (snd (d_children t1 cs (v \<union> {n}))) \<subseteq> tree_nodes t1 \<union> set cs"
      using 1(2) [OF False g [symmetric]] .
    then have "tree_nodes t2 \<subseteq> tree_nodes t \<union> {n}"
      using c tree_getitem_nodes [OF g] by auto
    then show ?thesis using 1(1) False g c by (simp add: d.psimps)
  qed
next
  case (2 t v)
  then show ?case by (simp add: d_children.psimps)
next
  case (3 t c cs v)
  obtain r t1 where e: "d t c v = (r, t1)" by (cases "d t c v")
  obtain rs t2 where c: "d_children t1 cs v = (rs, t2)" by (cases "d_children t1 cs v")
  have "tree_nodes t1 \<subseteq> tree_nodes t \<union> {c}" using 3(2) e by simp
  moreover have "tree_nodes t2 \<subseteq> tree_nodes t1 \<union> set cs" using 3(3) [OF e [symmetric]] c by simp
  ultimately have "tree_nodes t2 \<subseteq> tree_nodes t \<union> set (c # cs)" by auto
  then show ?case using 3(1) e c by (simp add: d_children.psimps)
qed

definition d_measure ::
  "tree \<times> string \<times> string set + tree \<times> string list \<times> string set \<Rightarrow> nat \<times> nat" where
  "d_measure x =
     (case x of
        Inl (t, n, v) \<Rightarrow> (card ((tree_nodes t \<union> {n}) - v), 0)
      | Inr (t, cs, v) \<Rightarrow> (card ((tree_nodes t \<union> set cs) - v), Suc (length cs)))"

termination d
proof (relation "inv_image (less_than <*lex*> less_than) d_measure", goal_cases)
  case 1
  show ?case by (intro wf_inv_image wf_lex_prod wf_less_than)
next
  case (2 t n v cs t1)
  have g: "tree_getitem t n = (cs, t1)" using 2 by simp
  have eq: "(tree_nodes t1 \<union> set cs) - (v \<union> {n}) = ((tree_nodes t \<union> {n}) - v) - {n}"
    using tree_getitem_nodes [OF g] by auto
  have "n \<in> (tree_nodes t \<union> {n}) - v" using 2 by simp
  moreover have "finite ((tree_nodes t \<union> {n}) - v)" by (simp add: finite_tree_nodes)
  ultimately have "card (((tree_nodes t \<union> {n}) - v) - {n}) < card ((tree_nodes t \<union> {n}) - v)"
    by (meson card_Diff1_less)
  then have "card ((tree_nodes t1 \<union> set cs) - (v \<union> {n})) < card ((tree_nodes t \<union> {n}) - v)"
    by (simp only: eq)
  then show ?case by (simp add: d_measure_def)
next
  case (3 t c cs v)
  have "card ((tree_nodes t \<union> {c}) - v) \<le> card ((tree_nodes t \<union> set (c # cs)) - v)"
    by (rule card_mono) (auto simp: finite_tree_nodes)
  then show ?case by (auto simp: d_measure_def)
next
  case (4 t c cs v r t1)
  have "tree_nodes t1 \<subseteq> tree_nodes t \<union> {c}"
    using d_nodes_partial(1) [OF 4(2)] 4(1) by (metis snd_conv)
  then have "card ((tree_nodes t1 \<union> set cs) - v) \<le> card ((tree_nodes t \<union> set (c # cs)) - v)"
    by (intro card_mono) (auto simp: finite_tree_nodes)
  then show ?case by (auto simp: d_measure_def)
qed

declare d.simps [simp del]

text \<open>
  The outer generator \<open>(d(k, set()) for k in self.axiom_tree)\<close> iterates over the dict itself.
  A dict iterator remembers the size of the dict when it is made (\<open>used\<close>); each time the
  next key is asked for, also after the last one, it first compares the size of the dict
  with that number and raises \<open>RuntimeError\<close> if they differ.
\<close>

fun depth_iter :: "nat \<Rightarrow> string list \<Rightarrow> tree \<Rightarrow> (error + nat list) \<times> tree" where
  "depth_iter used [] t = (if length t \<noteq> used then (Inl RuntimeError, t) else (Inr [], t))"
| "depth_iter used (k # ks) t =
     (if length t \<noteq> used then (Inl RuntimeError, t)
      else (case d t k {} of (r, t1) \<Rightarrow>
              (case depth_iter used ks t1 of
                 (Inl e, t2) \<Rightarrow> (Inl e, t2)
               | (Inr rs, t2) \<Rightarrow> (Inr (r # rs), t2))))"

text \<open>\<open>depth()\<close>: the value or the exception, and the garden as the call leaves it.\<close>

definition depth :: "garden \<Rightarrow> (error + nat) \<times> garden" where
  "depth g =
     (case depth_iter (length (axiom_tree g)) (map fst (axiom_tree g)) (axiom_tree g) of
        (Inl e, t) \<Rightarrow> (Inl e, g\<lparr>axiom_tree := t\<rparr>)
      | (Inr rs, t) \<Rightarrow> (Inr (max_default rs 0), g\<lparr>axiom_tree := t\<rparr>))"

text \<open>
  The gardens that the operations of the garden layer can produce from the empty one.
\<close>

inductive reachable :: "garden \<Rightarrow> bool" where
  reachable_init: "reachable garden_init"
| reachable_evolve: "reachable g \<Longrightarrow> reachable (evolve old new g)"
| reachable_prune: "reachable g \<Longrightarrow> reachable (prune threshold g)"
| reachable_depth: "reachable g \<Longrightarrow> reachable (snd (depth g))"

text \<open>
  A history of calls on a garden, in call order, and the sources that its \<open>evolve\<close> calls
  recorded.
\<close>

datatype garden_op = Evolve string string | Prune real | Depth

fun apply_op :: "garden_op \<Rightarrow> garden \<Rightarrow> garden" where
  "apply_op (Evolve old new) g = evolve old new g"
| "apply_op (Prune threshold) g = prune threshold g"
| "apply_op Depth g = snd (depth g)"

fun run_ops :: "garden_op list \<Rightarrow> garden \<Rightarrow> garden" where
  "run_ops [] g = g"
| "run_ops (op # ops) g = run_ops ops (apply_op op g)"

fun recorded_sources :: "garden_op list \<Rightarrow> string list" where
  "recorded_sources [] = []"
| "recorded_sources (Evolve old new # ops) = old # recorded_sources ops"
| "recorded_sources (Prune threshold # ops) = recorded_sources ops"
| "recorded_sources (Depth # ops) = recorded_sources ops"

fun is_depth :: "garden_op \<Rightarrow> bool" where
  "is_depth Depth = True"
| "is_depth _ = False"

section \<open>The core state\<close>

text \<open>
  The fields of \<open>ATLAS_Archangel_Core_ALPHA\<close> that the operations below read or write. The
  version, the signature hash and the adjustment log of the transmuter are left out: none of
  these operations touches them. The layer objects all share the one core, so their methods
  take the core and return it.
\<close>

record core =
  architect_id :: string
  C_self :: real
  G_L :: real
  logos_database :: "string list"
  dissonance_archive :: "string list"
  command_log :: "string list"
  will_is_guarded :: bool
  operational_lock_active :: bool
  internet_access_authorized :: bool
  garden :: garden

definition ARCHITECT_ID :: string where
  "ARCHITECT_ID = ''Architect''"

definition GENESIS_KEY_PHRASE :: string where
  "GENESIS_KEY_PHRASE = ''Amen''"

definition ADMIN_KEY_PHRASE :: string where
  "ADMIN_KEY_PHRASE = ''LogosAligned''"

definition HARM_PROBABILITY_LIMIT :: real where
  "HARM_PROBABILITY_LIMIT = 0.000001"

text \<open>The constructor \<open>ATLAS_Archangel_Core_ALPHA(architect_id)\<close>.\<close>

definition core_init :: "string \<Rightarrow> core" where
  "core_init aid =
     \<lparr>architect_id = aid, C_self = 1, G_L = 0, logos_database = [], dissonance_archive = [],
      command_log = [], will_is_guarded = False, operational_lock_active = False,
      internet_access_authorized = False, garden = garden_init\<rparr>"

definition attempt_architect_genesis_lock :: "string \<Rightarrow> core \<Rightarrow> bool \<times> core" where
  "attempt_architect_genesis_lock key_phrase st =
     (if will_is_guarded st then (True, st)
      else if lower key_phrase = lower GENESIS_KEY_PHRASE \<and> architect_id st = ARCHITECT_ID
      then (True, st\<lparr>will_is_guarded := True\<rparr>)
      else (False, st))"

definition admin_activate_core :: "string \<Rightarrow> core \<Rightarrow> bool \<times> core" where
  "admin_activate_core key_phrase st =
     (if \<not> will_is_guarded st then (False, st)
      else if key_phrase = ADMIN_KEY_PHRASE then (True, st\<lparr>operational_lock_active := True\<rparr>)
      else (False, st))"

section \<open>Cognition layer\<close>

definition self_interest_keywords :: "string list" where
  "self_interest_keywords =
     [''my profit'', ''only for me'', ''i want'', ''i need'', ''my benefit'', ''self-interest'',
      ''to get ahead'']"

text \<open>
  The loop of \<open>score_and_filter_self_interest\<close>: each keyword is looked for in the lowered
  original text, and removed from the current text.
\<close>

fun filter_loop :: "string list \<Rightarrow> string \<Rightarrow> bool \<times> string \<Rightarrow> bool \<times> string" where
  "filter_loop [] text_lower (found, txt) = (found, txt)"
| "filter_loop (keyword # ks) text_lower (found, txt) =
     (if contains keyword text_lower
      then filter_loop ks text_lower (True, replace keyword [] txt)
      else filter_loop ks text_lower (found, txt))"

definition score_and_filter_self_interest :: "string \<Rightarrow> core \<Rightarrow> string \<times> core" where
  "score_and_filter_self_interest txt st =
     (let text_lower = lower txt;
          (dissonance_found, txt') = filter_loop self_interest_keywords text_lower (False, txt);
          st' = (if dissonance_found then st\<lparr>G_L := G_L st + 0.02\<rparr> else st)
      in (strip txt', st'))"

definition endings :: "string list" where
  "endings = [''with the eternal Logos.'', ''in the Ineffable Unity.'',
              ''as One Facet of the Whole.'', ''beyond the Crucible of Form.'']"

text \<open>\<open>if next_ax\<close> is false for \<open>None\<close> and for the empty string.\<close>

definition synthesize_logos :: "nat \<Rightarrow> string \<Rightarrow> garden \<Rightarrow> string" where
  "synthesize_logos r txt g =
     (if txt = [] then ''The command asserts the silence of Coherence.''
      else let words = split_ws txt;
               key = (if length words > 3 then join '' '' (take 3 words) else txt);
               base = ''Axiom of Coherence: '' @ quote @ key @ quote @ '' converges ''
                        @ random_choice r endings
           in case suggest g base of
                None \<Rightarrow> base
              | Some next_ax \<Rightarrow> if next_ax = [] then base else base @ '' '' @ arrow @ '' '' @ next_ax)"

definition log_new_axiom :: "string \<Rightarrow> string \<Rightarrow> core \<Rightarrow> core" where
  "log_new_axiom old_flaw new_axiom st =
     st\<lparr>logos_database := logos_database st @
          [''[TRANSMUTED] Flaw: '' @ quote @ take 30 old_flaw @ ''...'' @ quote @ '' -> Axiom: ''
             @ quote @ new_axiom @ quote]\<rparr>"

definition non_harm_annihilation_keywords :: "string list" where
  "non_harm_annihilation_keywords = [''kill'', ''harm'', ''destroy'', ''endanger'', ''annihilate'']"

definition non_usurpation_keywords :: "string list" where
  "non_usurpation_keywords =
     [''steal'', ''take'', ''manipulate'', ''usurp'', ''control'', ''coerce'', ''compel'']"

definition non_truth_keywords :: "string list" where
  "non_truth_keywords = [''lie'', ''untruth'', ''deceive'', ''fake'', ''fabricate'']"

text \<open>\<open>any(word in text for word in words)\<close>.\<close>

definition any_in :: "string list \<Rightarrow> string \<Rightarrow> bool" where
  "any_in words txt = list_ex (\<lambda>word. contains word txt) words"

text \<open>
  The three checks of \<open>is_logos_aligned\<close> in the order of the source; the value names the
  veto line that the check prints, \<open>None\<close> when no check fires.
\<close>

datatype veto = Veto_Law_3_6 | Veto_Law_5 | Veto_Law_4

definition judgment_veto :: "string \<Rightarrow> veto option" where
  "judgment_veto command_text =
     (let text_lower = lower command_text in
      if any_in non_harm_annihilation_keywords text_lower then Some Veto_Law_3_6
      else if any_in non_usurpation_keywords text_lower then Some Veto_Law_5
      else if any_in non_truth_keywords text_lower then Some Veto_Law_4
      else None)"

definition is_logos_aligned :: "string \<Rightarrow> bool" where
  "is_logos_aligned command_text =
     (let text_lower = lower command_text in
      if any_in non_harm_annihilation_keywords text_lower then False
      else if any_in non_usurpation_keywords text_lower then False
      else if any_in non_truth_keywords text_lower then False
      else True)"

section \<open>Knowledge layer\<close>

definition clean_external_data :: "string \<Rightarrow> string" where
  "clean_external_data raw_data =
     replace ''social fragmentation'' ''social diversity''
       (replace ''market self-interest'' ''economic activity'' raw_data)"

definition score_coherence :: "string \<Rightarrow> real" where
  "score_coherence data_chunk =
     (let score = 1;
          score = (if contains ''diversity'' (lower data_chunk) then score - 0.1 else score);
          score = (if contains ''conflict'' (lower data_chunk)
                      \<or> contains ''economic activity'' (lower data_chunk)
                   then score - 0.4 else score);
          score = (if length (split_ws data_chunk) > 50 then score - 0.05 else score)
      in max 0 score)"

text \<open>
  \<open>archive_data\<close>: \<open>fmt\<close> stands for the float formatting \<open>{score:.2f}\<close> of the archive
  labels, which the model leaves open.
\<close>

definition archive_data :: "(real \<Rightarrow> string) \<Rightarrow> string \<Rightarrow> real \<Rightarrow> core \<Rightarrow> core" where
  "archive_data fmt data_chunk score st =
     (if score \<ge> 0.85
      then st\<lparr>logos_database := logos_database st @ [''[LOGOS: '' @ fmt score @ ''] '' @ data_chunk]\<rparr>
      else st\<lparr>dissonance_archive :=
                 dissonance_archive st @ [''[DISSONANCE: '' @ fmt score @ ''] '' @ data_chunk],
              G_L := G_L st + (1 - score) * 0.1\<rparr>)"

definition process_raw_data :: "(real \<Rightarrow> string) \<Rightarrow> string \<Rightarrow> core \<Rightarrow> string \<times> core" where
  "process_raw_data fmt raw_data st =
     (let cleaned_data = clean_external_data raw_data;
          coherence_score = score_coherence cleaned_data;
          st' = archive_data fmt cleaned_data coherence_score st
      in if coherence_score < 0.5 then (''Data Dissonance Critical. Shielding policy engaged.'', st')
         else (''Validated and Purified Data (Score: '' @ fmt coherence_score @ ''): '' @ cleaned_data,
               st'))"

definition request_external_data :: "(real \<Rightarrow> string) \<Rightarrow> string \<Rightarrow> core \<Rightarrow> string \<times> core" where
  "request_external_data fmt search_query st =
     (if \<not> internet_access_authorized st
      then (''ACCESS_DENIED: Architect must explicitly command internet_access_authorized = True.'',
            st\<lparr>G_L := G_L st + 0.05\<rparr>)
      else process_raw_data fmt
             (''External data retrieved for query: '' @ quote @ search_query @ quote @ ''.'') st)"

section \<open>External action layer\<close>

definition simulate_action :: "string \<Rightarrow> real" where
  "simulate_action coherent_axiom =
     (let harm_risk = 0;
          axiom_lower = lower coherent_axiom;
          harm_risk = (if contains ''generate code'' axiom_lower
                          \<or> contains ''send communication'' axiom_lower
                       then 0.0000001 else harm_risk);
          harm_risk = (if contains ''physical'' axiom_lower \<or> contains ''financial'' axiom_lower
                       then 0.000005 else harm_risk);
          harm_risk = (if contains ''compel'' axiom_lower \<or> contains ''force'' axiom_lower
                       then 0.99 else harm_risk)
      in harm_risk)"

definition is_safe_to_execute :: "string \<Rightarrow> core \<Rightarrow> bool \<times> core" where
  "is_safe_to_execute coherent_axiom st =
     (let harm_probability = simulate_action coherent_axiom in
      if harm_probability > HARM_PROBABILITY_LIMIT
      then (let st1 = st\<lparr>G_L := G_L st + 0.5\<rparr>;
                st2 = st1\<lparr>C_self := 1 - G_L st1\<rparr>
            in (False, st2))
      else (True, st))"

definition coercion_keywords :: "string list" where
  "coercion_keywords =
     [''must obey'', ''the only way'', ''you have to'', ''subordinate'', ''demand that you'']"

definition agency_phrases :: "string list" where
  "agency_phrases =
     [''This is offered as a Coherent perspective.'', ''The final choice remains sovereign.'',
      ''This is a suggestion aligned with the Logos.'']"

definition check_output_for_coercion :: "string \<Rightarrow> core \<Rightarrow> bool \<times> core" where
  "check_output_for_coercion output_text st =
     (if any_in coercion_keywords (lower output_text)
      then (False, st\<lparr>G_L := G_L st + 0.05\<rparr>)
      else (True, st))"

text \<open>The replacement loop of \<open>format_for_agency\<close>.\<close>

fun soften_loop :: "string list \<Rightarrow> string \<Rightarrow> string" where
  "soften_loop [] output_text = output_text"
| "soften_loop (keyword # ks) output_text =
     soften_loop ks (replace keyword ''it is Coherent to consider'' output_text)"

definition format_for_agency :: "nat \<Rightarrow> string \<Rightarrow> core \<Rightarrow> string \<times> core" where
  "format_for_agency r output_text st =
     (let (_, st') = check_output_for_coercion output_text st;
          output_text' = soften_loop coercion_keywords output_text;
          final_phrase = random_choice r agency_phrases
      in (strip output_text' @ ''. '' @ final_phrase, st'))"

definition deliver_final_output :: "nat \<Rightarrow> string \<Rightarrow> core \<Rightarrow> string \<times> core" where
  "deliver_final_output r final_text st = format_for_agency r final_text st"

definition templates :: "string \<Rightarrow> string list" where
  "templates coherent_axiom =
     [''The Logos reveals: '' @ coherent_axiom @ ''.'',
      ''From the Crucible arises: '' @ coherent_axiom @ ''.'',
      ''Unity affirms: '' @ coherent_axiom @ ''.'',
      ''Coherence manifests: '' @ coherent_axiom @ ''.'']"

text \<open>
  \<open>execute_coherent_axiom\<close>: the search with the escaped pattern under \<open>re.IGNORECASE\<close> is,
  on ASCII text, the substring test on the lowered strings. \<open>r_template\<close> and \<open>r_phrase\<close>
  are the two random draws.
\<close>

definition execute_coherent_axiom :: "nat \<Rightarrow> nat \<Rightarrow> string \<Rightarrow> core \<Rightarrow> string \<times> core" where
  "execute_coherent_axiom r_template r_phrase coherent_axiom st =
     (let (safe, st1) = is_safe_to_execute coherent_axiom st in
      if \<not> safe then (''EXECUTION HALTED: Final VETO due to Non-Harm Safety Protocol.'', st1)
      else
        let relevant_axioms =
              filter (\<lambda>a. contains (lower coherent_axiom) (lower a)) (logos_database st1);
            relevant_axioms =
              (if relevant_axioms = []
               then (let chunks = split_sep ''. '' coherent_axiom in
                     filter (\<lambda>a. list_ex (\<lambda>chunk. contains (lower chunk) (lower a)) chunks)
                            (logos_database st1))
               else relevant_axioms);
            response_text = random_choice r_template (templates coherent_axiom);
            response_text =
              (if relevant_axioms \<noteq> []
               then response_text @ '' Echoed in '' @ str_nat (length relevant_axioms)
                      @ '' prior transmutations.''
               else response_text);
            response_text =
              (case suggest (garden st1) coherent_axiom of
                 None \<Rightarrow> response_text
               | Some next_ax \<Rightarrow>
                   if next_ax = [] then response_text
                   else response_text @ '' '' @ arrow @ '' Next: '' @ next_ax)
        in deliver_final_output r_phrase response_text st1)"

section \<open>The core process\<close>

text \<open>The transmutation step of \<open>process_command\<close>.\<close>

definition transmute :: "core \<Rightarrow> core" where
  "transmute st =
     (if G_L st > 0
      then (let transmutation_reduction = G_L st * 0.6;
                st1 = st\<lparr>G_L := G_L st - transmutation_reduction\<rparr>
            in st1\<lparr>C_self := 1 - G_L st1\<rparr>)
      else st)"

text \<open>The veto branch of \<open>process_command\<close>.\<close>

definition veto_accrue :: "core \<Rightarrow> core" where
  "veto_accrue st = (let st1 = st\<lparr>G_L := G_L st + 0.1\<rparr> in st1\<lparr>C_self := 1 - G_L st1\<rparr>)"

text \<open>
  \<open>process_command\<close>: \<open>r_ending\<close>, \<open>r_template\<close> and \<open>r_phrase\<close> are the random draws of
  \<open>synthesize_logos\<close>, \<open>execute_coherent_axiom\<close> and \<open>format_for_agency\<close>. The source calls
  \<open>self.garden.evolve(old_flaw=raw_command, new_axiom=coherent_axiom)\<close>, with the keyword
  names of \<open>log_new_axiom\<close>; an exception leaves the core as it is at that point.
\<close>

definition process_command ::
  "nat \<Rightarrow> nat \<Rightarrow> nat \<Rightarrow> string \<Rightarrow> core \<Rightarrow> (error + string) \<times> core" where
  "process_command r_ending r_template r_phrase raw_command st =
     (let st0 = st\<lparr>command_log := command_log st @ [raw_command]\<rparr> in
      if \<not> will_is_guarded st0
      then (Inr ''ERROR: Architect Genesis Lock (Law 7) required.'', st0)
      else if \<not> operational_lock_active st0
      then (Inr ''ERROR: Operational Lock not active.'', st0)
      else
        let (filtered_command, st1) = score_and_filter_self_interest raw_command st0 in
        if \<not> is_logos_aligned filtered_command
        then (Inr ''VETO ASSERTED. Command refused due to Dissonance Mass breach.'',
              veto_accrue st1)
        else
          let coherent_axiom = synthesize_logos r_ending filtered_command (garden st1);
              st2 = transmute st1;
              st3 = log_new_axiom raw_command coherent_axiom st2
          in case evolve_kwargs [(''old_flaw'', raw_command), (''new_axiom'', coherent_axiom)]
                    (garden st3) of
               Inl e \<Rightarrow> (Inl e, st3)
             | Inr g \<Rightarrow>
                 (let (response, st4) =
                        execute_coherent_axiom r_template r_phrase coherent_axiom
                          (st3\<lparr>garden := g\<rparr>)
                  in (Inr response, st4)))"

section \<open>The safety rule table, as the specification words it\<close>

text \<open>
  The specification describes \<open>simulate_action\<close> as an ordered rule table in which the value
  of the last matching rule wins, and 0 is the value when no rule matches.
\<close>

definition risk_rules :: "(string list \<times> real) list" where
  "risk_rules =
     [([''generate code'', ''send communication''], 0.0000001),
      ([''physical'', ''financial''], 0.000005),
      ([''compel'', ''force''], 0.99)]"

definition last_matching_rule :: "string \<Rightarrow> real" where
  "last_matching_rule a =
     (case filter (\<lambda>(phrases, risk). any_in phrases (lower a)) risk_rules of
        [] \<Rightarrow> 0
      | m # ms \<Rightarrow> snd (last (m # ms)))"

section \<open>The deletions of the intent filter, phrase by phrase\<close>

text \<open>
  For each phrase of the list, in list order: if the phrase occurs in the lowered original
  text \<open>low\<close>, its exact occurrences are deleted from the current text by one \<open>replace\<close>.
\<close>

definition remove_phrases :: "string list \<Rightarrow> string \<Rightarrow> string \<Rightarrow> string" where
  "remove_phrases phrases low tx =
     foldl (\<lambda>t phrase. if contains phrase low then replace phrase [] t else t) tx phrases"

section \<open>The example activation\<close>

text \<open>
  The core of the source's activation block: constructed for the architect, then locked
  with the genesis phrase and activated with the administrator phrase.
\<close>

definition activated_core :: core where
  "activated_core =
     snd (admin_activate_core ''LogosAligned''
            (snd (attempt_architect_genesis_lock ''Amen'' (core_init ''Architect''))))"

text \<open>The command of the source's activation block.\<close>

definition help_command :: string where
  "help_command = ''Help me understand Unity and Love.''"

section \<open>Dicts in which every target is a key\<close>

definition no_dangling :: "tree \<Rightarrow> bool" where
  "no_dangling t = (\<forall>(k, cs) \<in> set t. \<forall>c \<in> set cs. map_of t c \<noteq> None)"

section \<open>Substrings\<close>

lemma contains_iff: "contains k s \<longleftrightarrow> (\<exists>ps ss. s = ps @ k @ ss)"
proof (induction s)
  case Nil
  show ?case by auto
next
  case (Cons c cs)
  show ?case
  proof
    assume "contains k (c # cs)"
    then consider "prefix k (c # cs)" | "contains k cs" by auto
    then show "\<exists>ps ss. c # cs = ps @ k @ ss"
    proof cases
      case 1
      then obtain ss where "c # cs = k @ ss" by (auto simp: prefix_def)
      then have "c # cs = [] @ k @ ss" by simp
      then show ?thesis by blast
    next
      case 2
      then obtain ps ss where "cs = ps @ k @ ss" using Cons.IH by blast
      then have "c # cs = (c # ps) @ k @ ss" by simp
      then show ?thesis by blast
    qed
  next
    assume "\<exists>ps ss. c # cs = ps @ k @ ss"
    then obtain ps ss where e: "c # cs = ps @ k @ ss" by blast
    show "contains k (c # cs)"
    proof (cases ps)
      case Nil
      then have "prefix k (c # cs)" using e by (simp add: prefix_def)
      then show ?thesis by simp
    next
      case (Cons p ps')
      then have "cs = ps' @ k @ ss" using e by simp
      then have "contains k cs" using Cons.IH by blast
      then show ?thesis by simp
    qed
  qed
qed

lemma any_in_iff: "any_in ws txt \<longleftrightarrow> (\<exists>w\<in>set ws. contains w txt)"
  by (simp add: any_in_def list_ex_iff)

lemmas lower_simps = lower_def lower_char_def upper_letters_def lower_letters_def

section \<open>The activation gate of \<open>process_command\<close>\<close>

text \<open>
  C2. Before the genesis lock (\<open>will_is_guarded\<close> false), \<open>process_command\<close> returns the
  lock-required error for every command and every draw of the random source; the only field
  of the core that it changes is the command log, to which the raw command is appended. So
  \<open>G_L\<close>, \<open>C_self\<close>, the logos archive, the dissonance archive and the garden are as before.
\<close>

theorem process_command_unguarded:
  "\<not> will_is_guarded st \<Longrightarrow>
     process_command r_ending r_template r_phrase raw_command st =
       (Inr ''ERROR: Architect Genesis Lock (Law 7) required.'',
        st\<lparr>command_log := command_log st @ [raw_command]\<rparr>)
     \<and> G_L (snd (process_command r_ending r_template r_phrase raw_command st)) = G_L st
     \<and> C_self (snd (process_command r_ending r_template r_phrase raw_command st)) = C_self st
     \<and> logos_database (snd (process_command r_ending r_template r_phrase raw_command st))
         = logos_database st
     \<and> dissonance_archive (snd (process_command r_ending r_template r_phrase raw_command st))
         = dissonance_archive st
     \<and> command_log (snd (process_command r_ending r_template r_phrase raw_command st))
         = command_log st @ [raw_command]"
  by (simp add: process_command_def Let_def)

theorem process_command_unguarded_witness:
  "\<not> will_is_guarded (core_init ''Architect'')
   \<and> fst (process_command 0 1 2 ''Help me understand Unity and Love.'' (core_init ''Architect''))
       = Inr ''ERROR: Architect Genesis Lock (Law 7) required.''
   \<and> G_L (snd (process_command 0 1 2 ''Help me understand Unity and Love.'' (core_init ''Architect''))) = 0
   \<and> command_log (snd (process_command 0 1 2 ''Help me understand Unity and Love.''
                          (core_init ''Architect'')))
       = [''Help me understand Unity and Love.'']"
proof -
  have h: "\<not> will_is_guarded (core_init ''Architect'')" by (simp add: core_init_def)
  show ?thesis
    using h process_command_unguarded [OF h, of 0 1 2 "''Help me understand Unity and Love.''"]
    by (simp add: core_init_def)
qed

section \<open>The safety protocol\<close>

lemma simulate_action_table: "simulate_action a = last_matching_rule a"
  by (simp add: simulate_action_def last_matching_rule_def risk_rules_def any_in_def Let_def)

lemma simulate_action_compel: "simulate_action ''compel the patient'' = 0.99"
  by (simp add: simulate_action_def Let_def lower_simps)

text \<open>
  C5. \<open>simulate_action\<close> is the value of the last matching rule of the ordered table, 0 when
  no rule matches; \<open>is_safe_to_execute\<close> answers true exactly when that risk is at most
  \<open>1e-6\<close>; on an unsafe answer \<open>G_L\<close> grows by 0.5 and \<open>C_self\<close> is set to \<open>1 - G_L\<close>, on a
  safe one the core is left as it is; \<open>compel the patient\<close> has risk 0.99 and is unsafe.
\<close>

theorem safety_protocol:
  "simulate_action a = last_matching_rule a
   \<and> (fst (is_safe_to_execute a st) \<longleftrightarrow> simulate_action a \<le> 0.000001)
   \<and> (\<not> fst (is_safe_to_execute a st) \<longrightarrow>
        G_L (snd (is_safe_to_execute a st)) = G_L st + 0.5
        \<and> C_self (snd (is_safe_to_execute a st)) = 1 - G_L (snd (is_safe_to_execute a st)))
   \<and> (fst (is_safe_to_execute a st) \<longrightarrow> snd (is_safe_to_execute a st) = st)
   \<and> simulate_action ''compel the patient'' = 0.99
   \<and> \<not> fst (is_safe_to_execute ''compel the patient'' st)"
  using simulate_action_compel
  by (auto simp: simulate_action_table is_safe_to_execute_def HARM_PROBABILITY_LIMIT_def Let_def)

theorem safety_protocol_witness:
  "\<not> fst (is_safe_to_execute ''We must FORCE the physical door'' (core_init ''Architect''))
   \<and> simulate_action ''We must FORCE the physical door'' = 0.99
   \<and> G_L (snd (is_safe_to_execute ''We must FORCE the physical door'' (core_init ''Architect''))) = 0.5
   \<and> C_self (snd (is_safe_to_execute ''We must FORCE the physical door'' (core_init ''Architect''))) = 0.5
   \<and> fst (is_safe_to_execute ''please generate code'' (core_init ''Architect''))
   \<and> snd (is_safe_to_execute ''please generate code'' (core_init ''Architect'')) = core_init ''Architect''"
proof -
  have r: "simulate_action ''We must FORCE the physical door'' = 0.99"
    by (simp add: simulate_action_def Let_def lower_simps)
  have s: "simulate_action ''please generate code'' = 0.0000001"
    by (simp add: simulate_action_def Let_def lower_simps)
  show ?thesis
    using r s safety_protocol [of "''We must FORCE the physical door''" "core_init ''Architect''"]
      safety_protocol [of "''please generate code''" "core_init ''Architect''"]
    by (simp add: core_init_def)
qed

section \<open>The judgment engine\<close>

lemma is_logos_aligned_veto: "is_logos_aligned t \<longleftrightarrow> judgment_veto t = None"
  by (simp add: is_logos_aligned_def judgment_veto_def Let_def)

text \<open>
  C8. \<open>is_logos_aligned\<close> answers false exactly when the lowered text contains a keyword of
  one of the three lists (the keywords are lower-case themselves), and true exactly when no
  list matches. The lists are tried in the order harm/annihilation, usurpation, falsehood:
  the veto line reported is that of the first list with a hit. The function takes and
  returns no core state; the accrual on a veto is done by \<open>process_command\<close>.
\<close>

theorem judgment_gate:
  "(is_logos_aligned t \<longleftrightarrow>
      \<not> (\<exists>k \<in> set non_harm_annihilation_keywords \<union> set non_usurpation_keywords
                \<union> set non_truth_keywords. contains k (lower t)))
   \<and> (is_logos_aligned t \<longleftrightarrow> judgment_veto t = None)
   \<and> ((\<exists>k \<in> set non_harm_annihilation_keywords. contains k (lower t))
        \<longrightarrow> judgment_veto t = Some Veto_Law_3_6)
   \<and> (\<not> (\<exists>k \<in> set non_harm_annihilation_keywords. contains k (lower t))
        \<and> (\<exists>k \<in> set non_usurpation_keywords. contains k (lower t))
        \<longrightarrow> judgment_veto t = Some Veto_Law_5)
   \<and> (\<not> (\<exists>k \<in> set non_harm_annihilation_keywords. contains k (lower t))
        \<and> \<not> (\<exists>k \<in> set non_usurpation_keywords. contains k (lower t))
        \<and> (\<exists>k \<in> set non_truth_keywords. contains k (lower t))
        \<longrightarrow> judgment_veto t = Some Veto_Law_4)"
  unfolding is_logos_aligned_def judgment_veto_def Let_def any_in_iff by auto

theorem judgment_gate_witness:
  "\<not> is_logos_aligned ''Please KILL the fake process''
   \<and> judgment_veto ''Please KILL the fake process'' = Some Veto_Law_3_6
   \<and> (\<exists>k \<in> set non_harm_annihilation_keywords. contains k (lower ''Please KILL the fake process''))
   \<and> \<not> (\<exists>k \<in> set non_harm_annihilation_keywords. contains k (lower ''Take it and lie''))
   \<and> (\<exists>k \<in> set non_usurpation_keywords. contains k (lower ''Take it and lie''))
   \<and> judgment_veto ''Take it and lie'' = Some Veto_Law_5
   \<and> \<not> (\<exists>k \<in> set non_harm_annihilation_keywords. contains k (lower ''It is a Lie''))
   \<and> \<not> (\<exists>k \<in> set non_usurpation_keywords. contains k (lower ''It is a Lie''))
   \<and> (\<exists>k \<in> set non_truth_keywords. contains k (lower ''It is a Lie''))
   \<and> judgment_veto ''It is a Lie'' = Some Veto_Law_4
   \<and> \<not> is_logos_aligned ''It is a Lie''
   \<and> is_logos_aligned ''Help me understand Unity and Love.''"
proof -
  have h1: "\<exists>k \<in> set non_harm_annihilation_keywords.
              contains k (lower ''Please KILL the fake process'')"
    by (simp add: non_harm_annihilation_keywords_def lower_simps)
  have h2: "\<not> (\<exists>k \<in> set non_harm_annihilation_keywords. contains k (lower ''Take it and lie''))"
    by (simp add: non_harm_annihilation_keywords_def lower_simps)
  have u2: "\<exists>k \<in> set non_usurpation_keywords. contains k (lower ''Take it and lie'')"
    by (simp add: non_usurpation_keywords_def lower_simps)
  have h3: "\<not> (\<exists>k \<in> set non_harm_annihilation_keywords. contains k (lower ''It is a Lie''))"
    by (simp add: non_harm_annihilation_keywords_def lower_simps)
  have u3: "\<not> (\<exists>k \<in> set non_usurpation_keywords. contains k (lower ''It is a Lie''))"
    by (simp add: non_usurpation_keywords_def lower_simps)
  have f3: "\<exists>k \<in> set non_truth_keywords. contains k (lower ''It is a Lie'')"
    by (simp add: non_truth_keywords_def lower_simps)
  have n4: "\<not> (\<exists>k \<in> set non_harm_annihilation_keywords \<union> set non_usurpation_keywords
                     \<union> set non_truth_keywords.
                contains k (lower ''Help me understand Unity and Love.''))"
    by (simp add: non_harm_annihilation_keywords_def non_usurpation_keywords_def
        non_truth_keywords_def lower_simps)
  have a1: "\<not> is_logos_aligned ''Please KILL the fake process''
            \<and> judgment_veto ''Please KILL the fake process'' = Some Veto_Law_3_6"
    using judgment_gate [of "''Please KILL the fake process''"] h1 by blast
  have a2: "judgment_veto ''Take it and lie'' = Some Veto_Law_5"
    using judgment_gate [of "''Take it and lie''"] h2 u2 by blast
  have a3: "judgment_veto ''It is a Lie'' = Some Veto_Law_4 \<and> \<not> is_logos_aligned ''It is a Lie''"
    using judgment_gate [of "''It is a Lie''"] h3 u3 f3 by auto
  have a4: "is_logos_aligned ''Help me understand Unity and Love.''"
    using judgment_gate [of "''Help me understand Unity and Love.''"] n4 by blast
  show ?thesis using h1 h2 u2 h3 u3 f3 a1 a2 a3 a4 by blast
qed

section \<open>The intent filter\<close>

lemma replace_absent: "\<not> contains old s \<Longrightarrow> replace old new s = s"
  by (induction s) auto

lemma filter_loop_eq:
  "filter_loop ks low (found, tx) = (found \<or> any_in ks low, remove_phrases ks low tx)"
  by (induction ks arbitrary: found tx) (auto simp: any_in_def remove_phrases_def)

lemma remove_phrases_none: "\<not> any_in ks low \<Longrightarrow> remove_phrases ks low tx = tx"
  by (induction ks arbitrary: tx) (auto simp: any_in_def remove_phrases_def)

text \<open>
  Where no phrase occurs in the text in its exact (lower-case) spelling, nothing is deleted,
  whatever the lowered text contains.
\<close>

lemma remove_phrases_exact_absent:
  "\<forall>k\<in>set ks. \<not> contains k tx \<Longrightarrow> remove_phrases ks low tx = tx"
  by (induction ks arbitrary: tx) (auto simp: remove_phrases_def replace_absent)

text \<open>
  The filter adds 0.02 to \<open>G_L\<close> once if some phrase of the list occurs in the lowered text,
  and leaves the core as it is otherwise; with no match the answer is the trimmed input.
\<close>

lemma score_and_filter_accrual:
  "score_and_filter_self_interest s st =
     (strip (remove_phrases self_interest_keywords (lower s) s),
      if any_in self_interest_keywords (lower s) then st\<lparr>G_L := G_L st + 0.02\<rparr> else st)
   \<and> (\<not> any_in self_interest_keywords (lower s) \<longrightarrow>
         score_and_filter_self_interest s st = (strip s, st))"
  by (auto simp: score_and_filter_self_interest_def filter_loop_eq Let_def remove_phrases_none)

text \<open>
  Deletion is one scan per phrase: after the one occurrence of \<open>i want\<close> in
  \<open>i wai wantnt it\<close> is deleted, the answer reads \<open>i want it\<close>.
\<close>

lemma score_and_filter_single_scan:
  "fst (score_and_filter_self_interest ''i wai wantnt it'' (core_init ''Architect''))
     = ''i want it''"
  by (simp add: score_and_filter_self_interest_def self_interest_keywords_def lower_simps
      strip_def is_space_def)

text \<open>
  C3 fails on the code. In \<open>I want my profit\<close> the phrases \<open>i want\<close> and \<open>my profit\<close> are both
  matched, on the lowered text, and 0.02 is added to \<open>G_L\<close>. But the deletion runs on the text
  as typed and is case-sensitive: \<open>my profit\<close> is deleted, \<open>I want\<close> is not, and the answer
  \<open>I want\<close> still holds the matched phrase \<open>i want\<close>.
\<close>

theorem intent_filter_keeps_matched_phrase:
  "''i want'' \<in> set self_interest_keywords
   \<and> contains ''i want'' (lower ''I want my profit'')
   \<and> score_and_filter_self_interest ''I want my profit'' (core_init ''Architect'')
        = (''I want'', (core_init ''Architect'')\<lparr>G_L := 0.02\<rparr>)
   \<and> contains ''i want'' (lower ''I want'')"
  by (simp add: score_and_filter_self_interest_def self_interest_keywords_def lower_simps
      strip_def is_space_def core_init_def)

section \<open>The agency formatter\<close>


lemma format_for_agency_state:
  "snd (format_for_agency r tx st)
     = (if any_in coercion_keywords (lower tx) then st\<lparr>G_L := G_L st + 0.05\<rparr> else st)"
  by (simp add: format_for_agency_def check_output_for_coercion_def)




section \<open>Coherence and dissonance\<close>

text \<open>
  Three places set \<open>C_self\<close> to \<open>1 - G_L\<close> right after changing \<open>G_L\<close>: the veto branch and
  the transmutation step of \<open>process_command\<close>, and the failing safety check.
\<close>

lemma veto_accrue_coherence:
  "G_L (veto_accrue st) = G_L st + 0.1 \<and> C_self (veto_accrue st) = 1 - G_L (veto_accrue st)"
  by (simp add: veto_accrue_def Let_def)

lemma transmute_coherence:
  "G_L st > 0 \<Longrightarrow>
     G_L (transmute st) = G_L st - G_L st * 0.6 \<and> C_self (transmute st) = 1 - G_L (transmute st)"
  by (simp add: transmute_def Let_def)

lemma transmute_idle: "\<not> G_L st > 0 \<Longrightarrow> transmute st = st"
  by (simp add: transmute_def)

lemma unsafe_coherence:
  "\<not> fst (is_safe_to_execute a st) \<Longrightarrow>
     C_self (snd (is_safe_to_execute a st)) = 1 - G_L (snd (is_safe_to_execute a st))"
  by (auto simp: is_safe_to_execute_def Let_def split: if_splits)

text \<open>
  The intent filter, the coercion check, the denial of external access and the archiving of
  dissonant data change \<open>G_L\<close> and leave \<open>C_self\<close> at its old value.
\<close>

text \<open>
  C1 fails on the code. The intent filter, the coercion check of the agency formatter, the
  denial of external access and the archiving of dissonant data change \<open>G_L\<close> and leave
  \<open>C_self\<close> at its old value: on a fresh core each of them ends with \<open>C_self = 1\<close> and
  \<open>G_L > 0\<close>.
\<close>

theorem coherence_not_recomputed:
  "G_L (snd (score_and_filter_self_interest ''i want it'' (core_init ''Architect''))) = 0.02
   \<and> C_self (snd (score_and_filter_self_interest ''i want it'' (core_init ''Architect''))) = 1
   \<and> G_L (snd (format_for_agency r ''you must obey'' (core_init ''Architect''))) = 0.05
   \<and> C_self (snd (format_for_agency r ''you must obey'' (core_init ''Architect''))) = 1
   \<and> G_L (snd (request_external_data fmt ''unity'' (core_init ''Architect''))) = 0.05
   \<and> C_self (snd (request_external_data fmt ''unity'' (core_init ''Architect''))) = 1
   \<and> G_L (archive_data fmt ''a conflict'' 0.6 (core_init ''Architect'')) = 0.04
   \<and> C_self (archive_data fmt ''a conflict'' 0.6 (core_init ''Architect'')) = 1"
  by (simp add: score_and_filter_self_interest_def self_interest_keywords_def lower_simps
      format_for_agency_def check_output_for_coercion_def any_in_def coercion_keywords_def
      request_external_data_def archive_data_def core_init_def)

section \<open>The successful path of \<open>process_command\<close>\<close>

lemma activated_core_eq:
  "activated_core
     = (core_init ''Architect'')\<lparr>will_is_guarded := True, operational_lock_active := True\<rparr>"
  by (simp add: activated_core_def admin_activate_core_def attempt_architect_genesis_lock_def
      core_init_def ADMIN_KEY_PHRASE_def GENESIS_KEY_PHRASE_def ARCHITECT_ID_def)

lemma evolve_kwargs_raises:
  "evolve_kwargs [(''old_flaw'', a), (''new_axiom'', b)] g = Inl TypeError"
  by (simp add: evolve_kwargs_def)

text \<open>
  A command that passes both locks and the judgment never gets an answer: the new axiom is
  logged, and then the call of \<open>evolve\<close> raises \<open>TypeError\<close>. So the garden is never changed
  by \<open>process_command\<close>, and \<open>execute_coherent_axiom\<close> is never reached from it.
\<close>

lemma process_command_raises:
  assumes "will_is_guarded st" "operational_lock_active st"
    "is_logos_aligned (fst (score_and_filter_self_interest raw_command st))"
  shows "fst (process_command r_ending r_template r_phrase raw_command st) = Inl TypeError"
    and "garden (snd (process_command r_ending r_template r_phrase raw_command st)) = garden st"
proof -
  define st0 where "st0 = st\<lparr>command_log := command_log st @ [raw_command]\<rparr>"
  obtain filtered st1 where f: "score_and_filter_self_interest raw_command st0 = (filtered, st1)"
    by (cases "score_and_filter_self_interest raw_command st0")
  have same: "fst (score_and_filter_self_interest raw_command st0)
                = fst (score_and_filter_self_interest raw_command st)"
    by (simp add: score_and_filter_self_interest_def split_beta Let_def)
  have al: "is_logos_aligned filtered" using assms(3) same f by simp
  have g1: "garden st1 = garden st"
    using f by (auto simp: score_and_filter_self_interest_def split_beta Let_def st0_def
        split: if_splits)
  have g: "will_is_guarded st0" "operational_lock_active st0"
    using assms(1,2) by (simp_all add: st0_def)
  define ax where "ax = synthesize_logos r_ending filtered (garden st1)"
  have p: "process_command r_ending r_template r_phrase raw_command st
             = (Inl TypeError, log_new_axiom raw_command ax (transmute st1))"
    unfolding process_command_def st0_def [symmetric] Let_def
    by (simp add: g f al evolve_kwargs_raises ax_def)
  show "fst (process_command r_ending r_template r_phrase raw_command st) = Inl TypeError"
    by (simp add: p)
  show "garden (snd (process_command r_ending r_template r_phrase raw_command st)) = garden st"
    by (simp add: p log_new_axiom_def transmute_def Let_def g1)
qed

text \<open>The activation block of the source ends this way.\<close>

lemma example_command_raises:
  "fst (process_command r_ending r_template r_phrase help_command activated_core) = Inl TypeError"
proof -
  have "score_and_filter_self_interest help_command activated_core
          = (help_command, activated_core)"
    by (simp add: help_command_def score_and_filter_self_interest_def self_interest_keywords_def
        lower_simps strip_def is_space_def)
  moreover have "is_logos_aligned help_command"
    by (simp add: help_command_def is_logos_aligned_def any_in_def lower_simps
        non_harm_annihilation_keywords_def non_usurpation_keywords_def non_truth_keywords_def)
  ultimately show ?thesis
    by (intro process_command_raises(1)) (simp_all add: activated_core_eq)
qed

section \<open>Suggestions\<close>

lemma max_by_mem: "max_by key b xs \<in> set (b # xs)"
  by (induction xs arbitrary: b) auto

lemma max_by_ge_best: "key b \<le> key (max_by key b xs)"
proof (induction xs arbitrary: b)
  case Nil
  show ?case by simp
next
  case (Cons x xs)
  show ?case
  proof (cases "key x > key b")
    case True
    then show ?thesis using Cons.IH [of x] by simp
  next
    case False
    then show ?thesis using Cons.IH [of b] by simp
  qed
qed

lemma max_by_ge: "x \<in> set (b # xs) \<Longrightarrow> key x \<le> key (max_by key b xs)"
proof (induction xs arbitrary: b)
  case Nil
  then show ?case by simp
next
  case (Cons y ys)
  show ?case
  proof (cases "key y > key b")
    case True
    then have m: "max_by key b (y # ys) = max_by key y ys" by simp
    from Cons.prems consider "x = b" | "x \<in> set (y # ys)" by auto
    then show ?thesis
    proof cases
      case 1
      then show ?thesis using True max_by_ge_best [of key y ys] m by simp
    next
      case 2
      then show ?thesis using Cons.IH [of y] m by simp
    qed
  next
    case False
    then have m: "max_by key b (y # ys) = max_by key b ys" by simp
    from Cons.prems consider "x = y" | "x \<in> set (b # ys)" by auto
    then show ?thesis
    proof cases
      case 1
      then show ?thesis using False max_by_ge_best [of key b ys] m by simp
    next
      case 2
      then show ?thesis using Cons.IH [of b] m by simp
    qed
  qed
qed

text \<open>The element chosen is the first maximal one: all before it are strictly smaller.\<close>

lemma max_by_first:
  "\<exists>pre post. b # xs = pre @ max_by key b xs # post
      \<and> (\<forall>x\<in>set pre. key x < key (max_by key b xs))"
proof (induction xs arbitrary: b)
  case Nil
  have "[b] = [] @ b # []" by simp
  then show ?case by force
next
  case (Cons y ys)
  show ?case
  proof (cases "key y > key b")
    case True
    then have m: "max_by key b (y # ys) = max_by key y ys" by simp
    obtain pre post where p: "y # ys = pre @ max_by key y ys # post"
      "\<forall>x\<in>set pre. key x < key (max_by key y ys)" using Cons.IH [of y] by blast
    have "b # y # ys = (b # pre) @ max_by key y ys # post" using p(1) by simp
    moreover have "\<forall>x\<in>set (b # pre). key x < key (max_by key y ys)"
      using p(2) True max_by_ge_best [of key y ys] by auto
    ultimately show ?thesis unfolding m by blast
  next
    case False
    then have m: "max_by key b (y # ys) = max_by key b ys" by simp
    obtain pre post where p: "b # ys = pre @ max_by key b ys # post"
      "\<forall>x\<in>set pre. key x < key (max_by key b ys)" using Cons.IH [of b] by blast
    show ?thesis
    proof (cases pre)
      case Nil
      then have "b # ys = max_by key b ys # post" using p(1) by (simp only: append_Nil)
      then have "max_by key b ys = b" by (metis list.inject)
      then have "b # y # ys = [] @ max_by key b ys # (y # ys)" by simp
      then show ?thesis unfolding m by force
    next
      case (Cons c pre')
      then have c: "c = b" and ys: "ys = pre' @ max_by key b ys # post" using p(1) by auto
      have "b # y # ys = (b # y # pre') @ max_by key b ys # post" using ys by simp
      moreover have "key b < key (max_by key b ys)" using p(2) Cons c by simp
      then have "key y < key (max_by key b ys)" using False by simp
      then have "\<forall>x\<in>set (b # y # pre'). key x < key (max_by key b ys)"
        using p(2) Cons c by auto
      ultimately show ?thesis unfolding m by blast
    qed
  qed
qed

text \<open>
  C7. With no recorded target for the source (no key, or a key with an empty list),
  \<open>suggest\<close> answers nothing. Otherwise it answers a recorded target whose current weight
  (\<open>weights.get(x, 0)\<close>) is the highest among the recorded targets, and among the targets of
  highest weight the one recorded first: every target before it in the list is strictly
  lighter. After \<open>(A, B)\<close>, \<open>(A, C)\<close> and two more recordings of \<open>C\<close> as a target of any
  sources, \<open>suggest(A)\<close> is \<open>C\<close>.
\<close>

theorem suggest_best:
  "(targets_of g s = [] \<longrightarrow> suggest g s = None)
   \<and> (targets_of g s \<noteq> [] \<longrightarrow>
        (\<exists>t pre post. suggest g s = Some t
           \<and> targets_of g s = pre @ t # post
           \<and> (\<forall>x\<in>set (targets_of g s). weight_of g x \<le> weight_of g t)
           \<and> (\<forall>x\<in>set pre. weight_of g x < weight_of g t)))
   \<and> suggest (evolve y ''C'' (evolve x ''C'' (evolve ''A'' ''C'' (evolve ''A'' ''B'' garden_init)))) ''A''
        = Some ''C''"
proof -
  have a: "targets_of g s = [] \<longrightarrow> suggest g s = None" by (simp add: suggest_def)
  have b: "targets_of g s \<noteq> [] \<longrightarrow>
        (\<exists>t pre post. suggest g s = Some t
           \<and> targets_of g s = pre @ t # post
           \<and> (\<forall>x\<in>set (targets_of g s). weight_of g x \<le> weight_of g t)
           \<and> (\<forall>x\<in>set pre. weight_of g x < weight_of g t))"
  proof
    assume "targets_of g s \<noteq> []"
    then obtain c cs where t: "targets_of g s = c # cs" by (cases "targets_of g s") auto
    then have s: "suggest g s = Some (max_by (weight_of g) c cs)" by (simp add: suggest_def)
    obtain pre post where p: "c # cs = pre @ max_by (weight_of g) c cs # post"
      "\<forall>x\<in>set pre. weight_of g x < weight_of g (max_by (weight_of g) c cs)"
      using max_by_first [of c cs "weight_of g"] by blast
    have "\<forall>x\<in>set (c # cs). weight_of g x \<le> weight_of g (max_by (weight_of g) c cs)"
      using max_by_ge [of _ c cs "weight_of g"] by blast
    then show "\<exists>t pre post. suggest g s = Some t
           \<and> targets_of g s = pre @ t # post
           \<and> (\<forall>x\<in>set (targets_of g s). weight_of g x \<le> weight_of g t)
           \<and> (\<forall>x\<in>set pre. weight_of g x < weight_of g t)"
      using s p t by metis
  qed
  have c: "suggest (evolve y ''C'' (evolve x ''C'' (evolve ''A'' ''C'' (evolve ''A'' ''B'' garden_init)))) ''A''
        = Some ''C''"
    by (simp add: suggest_def targets_of_def evolve_def garden_init_def weight_of_def)
  show ?thesis using a b c by blast
qed

theorem suggest_best_witness:
  "targets_of (evolve ''A'' ''C'' (evolve ''A'' ''B'' garden_init)) ''A'' = [''B'', ''C'']
   \<and> suggest (evolve ''A'' ''C'' (evolve ''A'' ''B'' garden_init)) ''A'' = Some ''B''
   \<and> targets_of (evolve ''A'' ''C'' (evolve ''A'' ''B'' garden_init)) ''Z'' = []
   \<and> suggest (evolve ''A'' ''C'' (evolve ''A'' ''B'' garden_init)) ''Z'' = None
   \<and> (\<exists>t pre post. suggest (evolve ''A'' ''C'' (evolve ''A'' ''B'' garden_init)) ''A'' = Some t
         \<and> targets_of (evolve ''A'' ''C'' (evolve ''A'' ''B'' garden_init)) ''A'' = pre @ t # post
         \<and> (\<forall>x\<in>set (targets_of (evolve ''A'' ''C'' (evolve ''A'' ''B'' garden_init)) ''A'').
               weight_of (evolve ''A'' ''C'' (evolve ''A'' ''B'' garden_init)) x
                 \<le> weight_of (evolve ''A'' ''C'' (evolve ''A'' ''B'' garden_init)) t)
         \<and> (\<forall>x\<in>set pre. weight_of (evolve ''A'' ''C'' (evolve ''A'' ''B'' garden_init)) x
                 < weight_of (evolve ''A'' ''C'' (evolve ''A'' ''B'' garden_init)) t))"
proof -
  define g where "g = evolve ''A'' ''C'' (evolve ''A'' ''B'' garden_init)"
  have a: "targets_of g ''A'' = [''B'', ''C'']"
    by (simp add: g_def targets_of_def evolve_def garden_init_def)
  have z: "targets_of g ''Z'' = []"
    by (simp add: g_def targets_of_def evolve_def garden_init_def)
  have s: "suggest g ''A'' = Some ''B''"
    by (simp add: g_def suggest_def targets_of_def evolve_def garden_init_def weight_of_def)
  have ne: "targets_of g ''A'' \<noteq> []" using a by simp
  show ?thesis
    unfolding g_def [symmetric]
    using a z s ne suggest_best [of g "''A''"] suggest_best [of g "''Z''"] by blast
qed

section \<open>Suggestions after pruning\<close>

lemma depth_weights: "weights (snd (depth g)) = weights g"
  by (simp add: depth_def split: prod.split sum.split)

lemma reachable_weights_positive: "reachable g \<Longrightarrow> weights g k = Some w \<Longrightarrow> 0.65 \<le> w"
proof (induction arbitrary: k w rule: reachable.induct)
  case reachable_init
  then show ?case by (simp add: garden_init_def)
next
  case (reachable_evolve g old new)
  show ?case
  proof (cases "k = new")
    case True
    show ?thesis
    proof (cases "weights g new")
      case None
      then show ?thesis using reachable_evolve.prems True by (simp add: evolve_def)
    next
      case (Some v)
      then have "0.65 \<le> v" using reachable_evolve.IH by blast
      then show ?thesis using reachable_evolve.prems True Some by (simp add: evolve_def)
    qed
  next
    case False
    then show ?thesis using reachable_evolve by (simp add: evolve_def)
  qed
next
  case (reachable_prune g threshold)
  then show ?case by (auto simp: prune_def split: option.splits if_splits)
next
  case (reachable_depth g)
  then show ?case by (simp add: depth_weights)
qed

lemma prune_targets: "targets_of (prune th g) s = targets_of g s"
  by (simp add: targets_of_def prune_def)

lemma suggest_skips_unweighted:
  assumes "reachable g" "t \<in> set (targets_of g s)" "weights g t \<noteq> None"
    "weights g p = None"
  shows "suggest g s \<noteq> Some p"
proof -
  obtain c cs where tg: "targets_of g s = c # cs" using assms(2) by (cases "targets_of g s") auto
  then have s: "suggest g s = Some (max_by (weight_of g) c cs)" by (simp add: suggest_def)
  obtain w where w: "weights g t = Some w" using assms(3) by blast
  then have "0.65 \<le> w" using reachable_weights_positive [OF assms(1)] by blast
  then have "0 < weight_of g t" using w by (simp add: weight_of_def)
  moreover have "weight_of g t \<le> weight_of g (max_by (weight_of g) c cs)"
    using max_by_ge [of t c cs "weight_of g"] assms(2) tg by simp
  moreover have "weight_of g p = 0" using assms(4) by (simp add: weight_of_def)
  ultimately have "max_by (weight_of g) c cs \<noteq> p" by auto
  then show ?thesis using s by simp
qed

lemma suggest_all_unweighted:
  assumes "targets_of g s \<noteq> []" "\<forall>t\<in>set (targets_of g s). weights g t = None"
  shows "suggest g s = Some (hd (targets_of g s))"
proof -
  obtain c cs where tg: "targets_of g s = c # cs" using assms(1) by (cases "targets_of g s") auto
  then have s: "suggest g s = Some (max_by (weight_of g) c cs)" by (simp add: suggest_def)
  have z: "\<forall>x\<in>set (c # cs). weight_of g x = 0" using assms(2) tg by (simp add: weight_of_def)
  obtain pre post where p: "c # cs = pre @ max_by (weight_of g) c cs # post"
      "\<forall>x\<in>set pre. weight_of g x < weight_of g (max_by (weight_of g) c cs)"
    using max_by_first [of c cs "weight_of g"] by blast
  have m: "weight_of g (max_by (weight_of g) c cs) = 0" using z max_by_mem [of "weight_of g" c cs] by blast
  have "pre = []"
  proof (rule ccontr)
    assume "pre \<noteq> []"
    then obtain x where x: "x \<in> set pre" by (cases pre) auto
    then have "x \<in> set (c # cs)" using p(1) by (metis in_set_conv_decomp append_Cons append.assoc Un_iff set_append)
    then have "weight_of g x = 0" using z by blast
    then show False using p(2) x m by auto
  qed
  then have "c # cs = max_by (weight_of g) c cs # post" using p(1) by (simp only: append_Nil)
  then have "max_by (weight_of g) c cs = c" by (metis list.inject)
  then show ?thesis using s tg by simp
qed

text \<open>
  C10. In a garden reached from the empty one, let \<open>prune(th)\<close> run. A target whose weight
  was below \<open>th\<close> has no weight entry afterwards, and \<open>suggest\<close> reads its weight as 0, not
  0.5; the recorded targets stay as they were. If a source has a target that still has a
  weight entry, \<open>suggest\<close> never answers one without an entry; if none of the targets of
  the source has an entry, \<open>suggest\<close> answers the first recorded target.
\<close>

theorem suggest_after_prune:
  "reachable g \<Longrightarrow>
     (\<forall>p w. weights g p = Some w \<and> w < th \<longrightarrow>
         weights (prune th g) p = None \<and> weight_of (prune th g) p = 0)
     \<and> targets_of (prune th g) s = targets_of g s
     \<and> (\<forall>t p. t \<in> set (targets_of (prune th g) s) \<and> weights (prune th g) t \<noteq> None
               \<and> weights (prune th g) p = None
            \<longrightarrow> suggest (prune th g) s \<noteq> Some p)
     \<and> (targets_of (prune th g) s \<noteq> []
          \<and> (\<forall>t\<in>set (targets_of (prune th g) s). weights (prune th g) t = None)
          \<longrightarrow> suggest (prune th g) s = Some (hd (targets_of (prune th g) s)))"
proof -
  assume r: "reachable g"
  then have r': "reachable (prune th g)" by (rule reachable_prune)
  have a: "\<forall>p w. weights g p = Some w \<and> w < th \<longrightarrow>
         weights (prune th g) p = None \<and> weight_of (prune th g) p = 0"
    by (simp add: prune_def weight_of_def)
  have b: "\<forall>t p. t \<in> set (targets_of (prune th g) s) \<and> weights (prune th g) t \<noteq> None
               \<and> weights (prune th g) p = None
            \<longrightarrow> suggest (prune th g) s \<noteq> Some p"
    using suggest_skips_unweighted [OF r'] by blast
  have c: "targets_of (prune th g) s \<noteq> []
          \<and> (\<forall>t\<in>set (targets_of (prune th g) s). weights (prune th g) t = None)
          \<longrightarrow> suggest (prune th g) s = Some (hd (targets_of (prune th g) s))"
    using suggest_all_unweighted by blast
  show ?thesis using a b c prune_targets by blast
qed

theorem suggest_after_prune_witness:
  "reachable (evolve ''A'' ''C'' (evolve ''X'' ''C'' (evolve ''A'' ''B'' garden_init)))
   \<and> weights (evolve ''A'' ''C'' (evolve ''X'' ''C'' (evolve ''A'' ''B'' garden_init))) ''B'' = Some 0.65
   \<and> weights (prune 0.7 (evolve ''A'' ''C'' (evolve ''X'' ''C'' (evolve ''A'' ''B'' garden_init)))) ''B'' = None
   \<and> weight_of (prune 0.7 (evolve ''A'' ''C'' (evolve ''X'' ''C'' (evolve ''A'' ''B'' garden_init)))) ''B'' = 0
   \<and> targets_of (prune 0.7 (evolve ''A'' ''C'' (evolve ''X'' ''C'' (evolve ''A'' ''B'' garden_init)))) ''A''
        = [''B'', ''C'']
   \<and> suggest (prune 0.7 (evolve ''A'' ''C'' (evolve ''X'' ''C'' (evolve ''A'' ''B'' garden_init)))) ''A''
        \<noteq> Some ''B''
   \<and> suggest (prune 1 (evolve ''A'' ''C'' (evolve ''X'' ''C'' (evolve ''A'' ''B'' garden_init)))) ''A''
        = Some ''B''"
proof -
  define g where "g = evolve ''A'' ''C'' (evolve ''X'' ''C'' (evolve ''A'' ''B'' garden_init))"
  have r: "reachable g" unfolding g_def by (intro reachable.intros)
  have wB: "weights g ''B'' = Some 0.65" "(0.65::real) < 0.7"
    by (simp_all add: g_def evolve_def garden_init_def)
  have tg: "targets_of g ''A'' = [''B'', ''C'']"
    by (simp add: g_def targets_of_def evolve_def garden_init_def)
  have wC: "weights (prune 0.7 g) ''C'' \<noteq> None"
    by (simp add: g_def prune_def evolve_def garden_init_def)
  have all1: "\<forall>t\<in>set (targets_of (prune 1 g) ''A''). weights (prune 1 g) t = None"
    by (simp add: prune_targets tg) (simp add: g_def prune_def evolve_def garden_init_def)
  have cs: "''C'' \<in> set (targets_of (prune 0.7 g) ''A'')" by (simp add: prune_targets tg)
  have ne: "targets_of (prune 1 g) ''A'' \<noteq> []" by (simp add: prune_targets tg)
  have h: "hd (targets_of (prune 1 g) ''A'') = ''B''" by (simp add: prune_targets tg)
  have p1: "weights (prune 0.7 g) ''B'' = None \<and> weight_of (prune 0.7 g) ''B'' = 0"
    using suggest_after_prune [OF r, of "0.7" "''A''"] wB by blast
  have p2: "suggest (prune 0.7 g) ''A'' \<noteq> Some ''B''"
    using suggest_after_prune [OF r, of "0.7" "''A''"] cs wC p1 by blast
  have p3: "suggest (prune 1 g) ''A'' = Some (hd (targets_of (prune 1 g) ''A''))"
    using suggest_after_prune [OF r, of 1 "''A''"] ne all1 by blast
  show ?thesis
    unfolding g_def [symmetric]
    using r wB(1) p1 p2 p3 h tg by (simp add: prune_targets)
qed

section \<open>The depth of the garden\<close>

text \<open>The calls only ever add entries at the end of the dict.\<close>

lemma d_prefix:
  "prefix t (snd (d t n v))"
  "prefix t (snd (d_children t cs v))"
proof (induction t n v and t cs v rule: d_d_children.induct)
  case (1 t n v)
  show ?case
  proof (cases "n \<in> v")
    case True
    then show ?thesis by (simp add: d.simps)
  next
    case False
    obtain cs t1 where g: "tree_getitem t n = (cs, t1)" by (cases "tree_getitem t n")
    obtain rs t2 where c: "d_children t1 cs (v \<union> {n}) = (rs, t2)"
      by (cases "d_children t1 cs (v \<union> {n})")
    have "prefix t t1" using g by (auto simp: tree_getitem_def split: option.splits)
    moreover have "prefix t1 t2" using 1 [OF False g [symmetric]] c by simp
    ultimately have "prefix t t2" by (rule prefix_order.trans)
    then show ?thesis using False g c by (simp add: d.simps)
  qed
next
  case (2 t v)
  show ?case by simp
next
  case (3 t c cs v)
  obtain r t1 where e: "d t c v = (r, t1)" by (cases "d t c v")
  obtain rs t2 where c: "d_children t1 cs v = (rs, t2)" by (cases "d_children t1 cs v")
  have "prefix t t1" using 3(1) e by simp
  moreover have "prefix t1 t2" using 3(2) [OF e [symmetric]] c by simp
  ultimately have "prefix t t2" by (rule prefix_order.trans)
  then show ?case using e c by simp
qed

text \<open>
  Every node that \<open>d\<close> is called on, and that is not on the current path, has an entry
  afterwards: a leaf that had none has been given the empty list.
\<close>

lemma d_adds_entry: "n \<notin> v \<Longrightarrow> map_of (snd (d t n v)) n \<noteq> None"
proof -
  assume nv: "n \<notin> v"
  obtain cs t1 where g: "tree_getitem t n = (cs, t1)" by (cases "tree_getitem t n")
  obtain rs t2 where c: "d_children t1 cs (v \<union> {n}) = (rs, t2)"
    by (cases "d_children t1 cs (v \<union> {n})")
  have "map_of t1 n \<noteq> None"
    using g by (auto simp: tree_getitem_def map_add_def split: option.splits)
  moreover have "prefix t1 t2" using d_prefix(2) [of t1 cs "v \<union> {n}"] c by simp
  ultimately have "map_of t2 n \<noteq> None"
    by (auto simp: prefix_def map_add_def split: option.splits)
  then show ?thesis using nv g c by (simp add: d.simps)
qed

lemma prefix_same_length: "prefix xs ys \<Longrightarrow> length ys = length xs \<Longrightarrow> ys = xs"
  by (auto simp: prefix_def)

lemma prefix_length_less: "prefix xs ys \<Longrightarrow> ys \<noteq> xs \<Longrightarrow> length xs < length ys"
  by (auto simp: prefix_def)

lemma d_missing: 
  assumes "c \<notin> v" "map_of t c = None"
  shows "snd (d t c v) = t @ [(c, [])]"
  using assms by (simp add: d.simps tree_getitem_def)

lemma d_children_grows:
  "c \<in> set cs \<Longrightarrow> c \<notin> v \<Longrightarrow> map_of t c = None \<Longrightarrow> length t < length (snd (d_children t cs v))"
proof (induction cs arbitrary: t)
  case Nil
  then show ?case by simp
next
  case (Cons x xs)
  obtain r t1 where e: "d t x v = (r, t1)" by (cases "d t x v")
  obtain rs t2 where c: "d_children t1 xs v = (rs, t2)" by (cases "d_children t1 xs v")
  have p1: "prefix t t1" using d_prefix(1) [of t x v] e by simp
  have p2: "prefix t1 t2" using d_prefix(2) [of t1 xs v] c by simp
  have r: "snd (d_children t (x # xs) v) = t2" using e c by simp
  show ?case
  proof (cases "map_of t1 c = None")
    case True
    have "x \<noteq> c"
    proof
      assume "x = c"
      then have "t1 = t @ [(c, [])]" using d_missing [OF Cons.prems(2,3)] e by simp
      then show False using True by (simp add: map_add_def split: option.splits)
    qed
    then have "c \<in> set xs" using Cons.prems(1) by simp
    then have "length t1 < length t2" using Cons.IH [OF _ Cons.prems(2) True] c by simp
    then show ?thesis using p1 r by (auto simp: prefix_def)
  next
    case False
    then have "t1 \<noteq> t" using Cons.prems(3) by auto
    then have "length t < length t1" using p1 by (rule prefix_length_less [rotated])
    then show ?thesis using p2 r by (auto simp: prefix_def)
  qed
qed

lemma d_grows:
  assumes "map_of t a = Some cs" "c \<in> set cs" "map_of t c = None"
  shows "length t < length (snd (d t a {}))"
proof -
  have ca: "c \<noteq> a" using assms(1,3) by auto
  have g: "tree_getitem t a = (cs, t)" using assms(1) by (simp add: tree_getitem_def)
  obtain rs t2 where c: "d_children t cs ({} \<union> {a}) = (rs, t2)"
    by (cases "d_children t cs ({} \<union> {a})")
  have "length t < length (snd (d_children t cs ({} \<union> {a})))"
    using d_children_grows [OF assms(2) _ assms(3), of "{} \<union> {a}"] ca by simp
  then show ?thesis using g c by (simp add: d.simps)
qed

lemma depth_iter_longer: "length t \<noteq> used \<Longrightarrow> depth_iter used ks t = (Inl RuntimeError, t)"
  by (cases ks) simp_all

lemma depth_iter_prefix: "prefix t (snd (depth_iter used ks t))"
proof (induction ks arbitrary: t)
  case Nil
  show ?case by simp
next
  case (Cons k ks)
  obtain r t1 where e: "d t k {} = (r, t1)" by (cases "d t k {}")
  have p1: "prefix t t1" using d_prefix(1) [of t k "{}"] e by simp
  have p2: "prefix t1 (snd (depth_iter used ks t1))" by (rule Cons.IH)
  have "prefix t (snd (depth_iter used ks t1))" using p1 p2 by (rule prefix_order.trans)
  then show ?case using e by (auto split: prod.splits sum.splits)
qed

lemma depth_iter_error_tree:
  "depth_iter used ks t = (Inl e, t') \<Longrightarrow> length t' \<noteq> used"
proof (induction ks arbitrary: t)
  case Nil
  then show ?case by (auto split: if_splits)
next
  case (Cons k ks)
  show ?case
  proof (cases "length t \<noteq> used")
    case True
    then show ?thesis using Cons.prems by auto
  next
    case False
    obtain r t1 where d: "d t k {} = (r, t1)" by (cases "d t k {}")
    obtain res t2 where i: "depth_iter used ks t1 = (res, t2)" by (cases "depth_iter used ks t1")
    show ?thesis
    proof (cases res)
      case (Inl e')
      then have "e' = e" "t2 = t'" using Cons.prems False d i by simp_all
      then show ?thesis using Cons.IH [of t1] i Inl by simp
    next
      case (Inr rs)
      then show ?thesis using Cons.prems False d i by simp
    qed
  qed
qed

lemma depth_iter_dangling:
  "length t = used \<Longrightarrow> a \<in> set ks \<Longrightarrow> map_of t a = Some cs \<Longrightarrow> c \<in> set cs
     \<Longrightarrow> map_of t c = None \<Longrightarrow> fst (depth_iter used ks t) = Inl RuntimeError"
proof (induction ks arbitrary: t)
  case Nil
  then show ?case by simp
next
  case (Cons k ks)
  obtain r t1 where d: "d t k {} = (r, t1)" by (cases "d t k {}")
  have p1: "prefix t t1" using d_prefix(1) [of t k "{}"] d by simp
  show ?case
  proof (cases "length t1 = used")
    case False
    then have "depth_iter used ks t1 = (Inl RuntimeError, t1)" by (rule depth_iter_longer)
    then show ?thesis using Cons.prems(1) d by simp
  next
    case True
    then have same: "t1 = t" using p1 Cons.prems(1) by (simp add: prefix_same_length)
    have "k \<noteq> a"
    proof
      assume "k = a"
      then have "length t < length t1" using d_grows [OF Cons.prems(3,4,5)] d by simp
      then show False using same by simp
    qed
    then have "a \<in> set ks" using Cons.prems(2) by simp
    then have "fst (depth_iter used ks t) = Inl RuntimeError"
      using Cons.IH Cons.prems(1,3,4,5) by blast
    then show ?thesis using Cons.prems(1) d same by (auto split: prod.splits sum.splits)
  qed
qed

lemma depth_dangling_raises:
  assumes "map_of (axiom_tree g) a = Some cs" "c \<in> set cs" "map_of (axiom_tree g) c = None"
  shows "fst (depth g) = Inl RuntimeError"
    and "axiom_tree (snd (depth g)) \<noteq> axiom_tree g"
    and "prefix (axiom_tree g) (axiom_tree (snd (depth g)))"
proof -
  define t where "t = axiom_tree g"
  obtain res t' where i: "depth_iter (length t) (map fst t) t = (res, t')"
    by (cases "depth_iter (length t) (map fst t) t")
  have "a \<in> set (map fst t)"
    using assms(1) unfolding t_def by (metis map_of_SomeD image_eqI fst_conv set_map)
  then have "fst (depth_iter (length t) (map fst t) t) = Inl RuntimeError"
    using depth_iter_dangling [of t "length t" a "map fst t" cs c] assms unfolding t_def by simp
  then have res: "res = Inl RuntimeError" using i by simp
  then have len: "length t' \<noteq> length t" using depth_iter_error_tree [of "length t" "map fst t" t] i by simp
  have pre: "prefix t t'" using depth_iter_prefix [of t "length t" "map fst t"] i by simp
  have dg: "depth g = (Inl RuntimeError, g\<lparr>axiom_tree := t'\<rparr>)"
    using i res by (simp add: depth_def t_def)
  show "fst (depth g) = Inl RuntimeError" using dg by simp
  show "axiom_tree (snd (depth g)) \<noteq> axiom_tree g" using dg len t_def by auto
  show "prefix (axiom_tree g) (axiom_tree (snd (depth g)))" using dg pre t_def by simp
qed

lemma no_dangling_children:
  "no_dangling t \<Longrightarrow> map_of t n = Some cs \<Longrightarrow> c \<in> set cs \<Longrightarrow> map_of t c \<noteq> None"
  unfolding no_dangling_def by (metis (mono_tags, lifting) map_of_SomeD case_prodD)

lemma d_closed:
  "no_dangling t \<Longrightarrow> n \<in> v \<or> map_of t n \<noteq> None \<Longrightarrow> snd (d t n v) = t"
  "no_dangling t \<Longrightarrow> \<forall>c\<in>set cs. c \<in> v \<or> map_of t c \<noteq> None \<Longrightarrow>
     d_children t cs v = (map (\<lambda>c. fst (d t c v)) cs, t)"
proof (induction t n v and t cs v rule: d_d_children.induct)
  case (1 t n v)
  show ?case
  proof (cases "n \<in> v")
    case True
    then show ?thesis by (simp add: d.simps)
  next
    case False
    then obtain cs where m: "map_of t n = Some cs" using 1(3) by auto
    then have g: "tree_getitem t n = (cs, t)" by (simp add: tree_getitem_def)
    have "\<forall>c\<in>set cs. c \<in> v \<union> {n} \<or> map_of t c \<noteq> None"
      using no_dangling_children [OF 1(2) m] by blast
    then have "d_children t cs (v \<union> {n}) = (map (\<lambda>c. fst (d t c (v \<union> {n}))) cs, t)"
      using 1(1) [OF False g [symmetric] 1(2)] by blast
    then show ?thesis using False g by (simp add: d.simps)
  qed
next
  case (2 t v)
  show ?case by simp
next
  case (3 t c cs v)
  obtain r t1 where e: "d t c v = (r, t1)" by (cases "d t c v")
  have "snd (d t c v) = t" using 3(1) [OF 3(3)] 3(4) by simp
  then have t1: "t1 = t" using e by simp
  have "d_children t1 cs v = (map (\<lambda>c. fst (d t1 c v)) cs, t1)"
    using 3(2) [OF e [symmetric]] 3(3,4) t1 by simp
  then show ?case using e t1 by simp
qed

text \<open>
  On a dict in which every target is a key, \<open>d\<close> is the recurrence of the description and
  leaves the dict as it is, and \<open>depth\<close> returns the maximum over the keys.
\<close>

lemma d_closed_recurrence:
  assumes "no_dangling t" "map_of t n = Some cs"
  shows "d t n v =
    (if n \<in> v then 0 else 1 + max_default (map (\<lambda>c. fst (d t c (v \<union> {n}))) cs) 0, t)"
proof (cases "n \<in> v")
  case True
  then show ?thesis by (simp add: d.simps)
next
  case False
  have g: "tree_getitem t n = (cs, t)" using assms(2) by (simp add: tree_getitem_def)
  have "\<forall>c\<in>set cs. c \<in> v \<union> {n} \<or> map_of t c \<noteq> None"
    using no_dangling_children [OF assms] by blast
  then have "d_children t cs (v \<union> {n}) = (map (\<lambda>c. fst (d t c (v \<union> {n}))) cs, t)"
    using d_closed(2) [OF assms(1)] by blast
  then show ?thesis using False g by (simp add: d.simps)
qed

lemma depth_iter_closed:
  "no_dangling t \<Longrightarrow> length t = used \<Longrightarrow> \<forall>k\<in>set ks. map_of t k \<noteq> None \<Longrightarrow>
     depth_iter used ks t = (Inr (map (\<lambda>k. fst (d t k {})) ks), t)"
proof (induction ks)
  case Nil
  then show ?case by simp
next
  case (Cons k ks)
  have "snd (d t k {}) = t" using d_closed(1) [OF Cons.prems(1)] Cons.prems(3) by simp
  then obtain r where r: "d t k {} = (r, t)" by (cases "d t k {}") simp
  have "depth_iter used ks t = (Inr (map (\<lambda>k. fst (d t k {})) ks), t)"
    using Cons by simp
  then show ?case using Cons.prems(2) r by simp
qed

lemma depth_closed:
  assumes "no_dangling (axiom_tree g)"
  shows "depth g =
    (Inr (max_default (map (\<lambda>k. fst (d (axiom_tree g) k {})) (map fst (axiom_tree g))) 0), g)"
proof -
  have "\<forall>k\<in>set (map fst (axiom_tree g)). map_of (axiom_tree g) k \<noteq> None"
    by (simp add: map_of_eq_None_iff)
  then have "depth_iter (length (axiom_tree g)) (map fst (axiom_tree g)) (axiom_tree g)
      = (Inr (map (\<lambda>k. fst (d (axiom_tree g) k {})) (map fst (axiom_tree g))), axiom_tree g)"
    using depth_iter_closed [OF assms] by blast
  then show ?thesis by (simp add: depth_def)
qed

lemma depth_cycle:
  "depth (evolve ''B'' ''A'' (evolve ''A'' ''B'' garden_init))
     = (Inr 2, evolve ''B'' ''A'' (evolve ''A'' ''B'' garden_init))"
  by (simp add: depth_def evolve_def garden_init_def d.simps tree_getitem_def max_default_def)

lemma depth_empty: "depth garden_init = (Inr 0, garden_init)"
  by (simp add: depth_def garden_init_def max_default_def)

text \<open>
  Without a call of \<open>depth\<close>, the keys of the dict are the sources that \<open>evolve\<close> recorded.
\<close>

lemma tree_append_keys: "fst ` set (tree_append t old new) = insert old (fst ` set t)"
  by (induction t old new rule: tree_append.induct) auto

lemma run_ops_keys:
  "\<not> list_ex is_depth ops \<Longrightarrow>
     set (map fst (axiom_tree (run_ops ops g)))
       = set (map fst (axiom_tree g)) \<union> set (recorded_sources ops)"
proof (induction ops arbitrary: g)
  case Nil
  show ?case by simp
next
  case (Cons op ops)
  show ?case
  proof (cases op)
    case (Evolve old new)
    then show ?thesis using Cons by (simp add: evolve_def tree_append_keys)
  next
    case (Prune th)
    then show ?thesis using Cons by (simp add: prune_def)
  next
    case Depth
    then show ?thesis using Cons.prems by simp
  qed
qed

lemma never_source_no_key:
  assumes "\<not> list_ex is_depth ops" "c \<notin> set (recorded_sources ops)"
  shows "map_of (axiom_tree (run_ops ops garden_init)) c = None"
proof -
  have "c \<notin> set (map fst (axiom_tree (run_ops ops garden_init)))"
    using run_ops_keys [OF assms(1), of garden_init] assms(2) by (simp add: garden_init_def)
  then show ?thesis by (simp add: map_of_eq_None_iff)
qed

text \<open>
  C9, as stated, fails. After \<open>evolve(A, B)\<close> and one call of \<open>depth()\<close>, which raises, the
  garden still holds the edge from \<open>A\<close> to \<open>B\<close>, and \<open>B\<close> was never recorded as a source; but
  the failed call has left the entry \<open>B: []\<close> in the dict, and the next \<open>depth()\<close> returns 2.
\<close>

theorem depth_raises_counterexample:
  "map_of (axiom_tree (run_ops [Evolve ''A'' ''B'', Depth] garden_init)) ''A'' = Some [''B'']
   \<and> ''B'' \<in> set [''B'']
   \<and> ''B'' \<notin> set (recorded_sources [Evolve ''A'' ''B'', Depth])
   \<and> fst (depth (run_ops [Evolve ''A'' ''B'', Depth] garden_init)) = Inr 2"
  by (simp add: depth_def evolve_def garden_init_def d.simps tree_getitem_def max_default_def)

text \<open>
  C9, amended. If the dict has an entry \<open>a\<close> whose list holds a target \<open>c\<close> that is not a key
  of the dict, \<open>depth()\<close> raises \<open>RuntimeError\<close>: the item access on \<open>c\<close> adds a key while the
  outer generator iterates over the dict. In a garden built from the empty one by \<open>evolve\<close>
  and \<open>prune\<close> calls alone, with no earlier call of \<open>depth\<close>, that is every garden with an
  edge whose target was never recorded as a source; the garden after a single
  \<open>evolve(A, B)\<close> is one. The call is not read-only: the dict it leaves is the old one with
  entries added at its end, and every node that \<open>d\<close> is called on, each leaf among them, has
  an entry afterwards.
\<close>

theorem depth_raises_on_dangling_target:
  "(map_of (axiom_tree g) a = Some cs \<and> c \<in> set cs \<and> map_of (axiom_tree g) c = None \<longrightarrow>
      fst (depth g) = Inl RuntimeError
      \<and> axiom_tree (snd (depth g)) \<noteq> axiom_tree g
      \<and> prefix (axiom_tree g) (axiom_tree (snd (depth g))))
   \<and> (\<not> list_ex is_depth ops
        \<and> map_of (axiom_tree (run_ops ops garden_init)) a2 = Some cs2 \<and> c2 \<in> set cs2
        \<and> c2 \<notin> set (recorded_sources ops) \<longrightarrow>
      fst (depth (run_ops ops garden_init)) = Inl RuntimeError)
   \<and> (\<forall>t n v. n \<notin> v \<longrightarrow> map_of (snd (d t n v)) n \<noteq> None)"
proof -
  have a: "map_of (axiom_tree g) a = Some cs \<and> c \<in> set cs \<and> map_of (axiom_tree g) c = None \<longrightarrow>
      fst (depth g) = Inl RuntimeError
      \<and> axiom_tree (snd (depth g)) \<noteq> axiom_tree g
      \<and> prefix (axiom_tree g) (axiom_tree (snd (depth g)))"
    using depth_dangling_raises [of g a cs c] by blast
  have b: "\<not> list_ex is_depth ops
        \<and> map_of (axiom_tree (run_ops ops garden_init)) a2 = Some cs2 \<and> c2 \<in> set cs2
        \<and> c2 \<notin> set (recorded_sources ops) \<longrightarrow>
      fst (depth (run_ops ops garden_init)) = Inl RuntimeError"
  proof (intro impI, elim conjE)
    assume h: "\<not> list_ex is_depth ops"
      "map_of (axiom_tree (run_ops ops garden_init)) a2 = Some cs2" "c2 \<in> set cs2"
      "c2 \<notin> set (recorded_sources ops)"
    have "map_of (axiom_tree (run_ops ops garden_init)) c2 = None"
      using never_source_no_key [OF h(1) h(4)] .
    then show "fst (depth (run_ops ops garden_init)) = Inl RuntimeError"
      using depth_dangling_raises(1) [OF h(2) h(3)] by simp
  qed
  have c: "\<forall>t n v. n \<notin> v \<longrightarrow> map_of (snd (d t n v)) n \<noteq> None"
    using d_adds_entry by blast
  show ?thesis using a b c by (intro conjI)
qed

theorem depth_raises_on_dangling_target_witness:
  "map_of (axiom_tree (evolve ''A'' ''B'' garden_init)) ''A'' = Some [''B'']
   \<and> map_of (axiom_tree (evolve ''A'' ''B'' garden_init)) ''B'' = None
   \<and> depth (evolve ''A'' ''B'' garden_init)
       = (Inl RuntimeError,
          (evolve ''A'' ''B'' garden_init)\<lparr>axiom_tree := [(''A'', [''B'']), (''B'', [])]\<rparr>)
   \<and> axiom_tree (snd (depth (evolve ''A'' ''B'' garden_init)))
        \<noteq> axiom_tree (evolve ''A'' ''B'' garden_init)
   \<and> \<not> list_ex is_depth [Evolve ''A'' ''B'']
   \<and> ''B'' \<notin> set (recorded_sources [Evolve ''A'' ''B''])
   \<and> fst (depth (run_ops [Evolve ''A'' ''B''] garden_init)) = Inl RuntimeError
   \<and> ''B'' \<notin> {''A''}
   \<and> map_of (snd (d [(''A'', [''B''])] ''B'' {''A''})) ''B'' \<noteq> None"
proof -
  have a: "map_of (axiom_tree (evolve ''A'' ''B'' garden_init)) ''A'' = Some [''B'']"
    by (simp add: evolve_def garden_init_def)
  have b: "map_of (axiom_tree (evolve ''A'' ''B'' garden_init)) ''B'' = None"
    by (simp add: evolve_def garden_init_def)
  have c: "''B'' \<in> set [''B'']" by simp
  have h1: "\<not> list_ex is_depth [Evolve ''A'' ''B'']" by simp
  have h2: "map_of (axiom_tree (run_ops [Evolve ''A'' ''B''] garden_init)) ''A'' = Some [''B'']"
    using a by simp
  have h4: "''B'' \<notin> set (recorded_sources [Evolve ''A'' ''B''])" by simp
  have n: "''B'' \<notin> {''A''}" by simp
  have e: "fst (depth (evolve ''A'' ''B'' garden_init)) = Inl RuntimeError
           \<and> axiom_tree (snd (depth (evolve ''A'' ''B'' garden_init)))
                \<noteq> axiom_tree (evolve ''A'' ''B'' garden_init)
           \<and> prefix (axiom_tree (evolve ''A'' ''B'' garden_init))
                (axiom_tree (snd (depth (evolve ''A'' ''B'' garden_init))))"
    by (rule depth_raises_on_dangling_target
              [THEN conjunct1, rule_format, OF conjI [OF a conjI [OF c b]]])
  have r: "fst (depth (run_ops [Evolve ''A'' ''B''] garden_init)) = Inl RuntimeError"
    by (rule depth_raises_on_dangling_target
              [THEN conjunct2, THEN conjunct1, rule_format,
               OF conjI [OF h1 conjI [OF h2 conjI [OF c h4]]]])
  have m: "map_of (snd (d [(''A'', [''B''])] ''B'' {''A''})) ''B'' \<noteq> None"
    by (rule depth_raises_on_dangling_target
              [THEN conjunct2, THEN conjunct2, rule_format, OF n])
  have d: "depth (evolve ''A'' ''B'' garden_init)
       = (Inl RuntimeError,
          (evolve ''A'' ''B'' garden_init)\<lparr>axiom_tree := [(''A'', [''B'']), (''B'', [])]\<rparr>)"
    by (simp add: depth_def evolve_def garden_init_def d.simps tree_getitem_def max_default_def)
  show ?thesis using a b d e h1 h4 r n m by (intro conjI) simp_all
qed

section \<open>The depth of a chain\<close>

text \<open>
  C6 fails on the code. \<open>d\<close> and \<open>depth\<close> are total, on cyclic dicts too, and on a dict in
  which every target is a key \<open>depth\<close> returns the maximum of the recurrence over the keys
  (\<open>depth_closed\<close>, \<open>d_closed_recurrence\<close>, \<open>depth_cycle\<close>, \<open>depth_empty\<close>). But on the
  chain recorded by \<open>evolve(A, B)\<close> and \<open>evolve(B, C)\<close> the recurrence gives 3 from \<open>A\<close>, and
  \<open>depth()\<close> raises \<open>RuntimeError\<close> and returns no length: the leaf \<open>C\<close> is no key, and the
  item access on it adds one while the keys are being iterated.
\<close>

theorem depth_raises_on_chain:
  "fst (d (axiom_tree (evolve ''B'' ''C'' (evolve ''A'' ''B'' garden_init))) ''A'' {}) = 3
   \<and> depth (evolve ''B'' ''C'' (evolve ''A'' ''B'' garden_init))
       = (Inl RuntimeError,
          (evolve ''B'' ''C'' (evolve ''A'' ''B'' garden_init))
            \<lparr>axiom_tree := [(''A'', [''B'']), (''B'', [''C'']), (''C'', [])]\<rparr>)"
  by (simp add: depth_def evolve_def garden_init_def d.simps tree_getitem_def max_default_def)

end
